theory Spec2Isabelle
  imports
    Complex_Main
    "HOL-Library.Word"
    "HOL-Library.List_Lexorder"
    "HOL-Library.Multiset"
    "HOL-Library.AList"
begin

section \<open>JavaScript strings\<close>

text \<open>
  A JavaScript string is a sequence of 16-bit code units; \<open>length\<close>, indexing,
  \<open>split\<close>, \<open>trim\<close> and \<open>padStart\<close> all count code units, and \<open><\<close> on strings
  compares them code unit by code unit (the lexicographic order on lists).
  \<open>js\<close> embeds an ASCII literal.
\<close>

type_synonym codeunit = "16 word"
type_synonym jsstring = "codeunit list"

definition js :: "string \<Rightarrow> jsstring" where
  "js s = map (\<lambda>c. of_char c) s"

definition quote :: codeunit where "quote = 0x22"
definition comma :: codeunit where "comma = 0x2C"
definition space :: codeunit where "space = 0x20"
definition newline :: codeunit where "newline = 0x0A"
definition zero :: codeunit where "zero = 0x30"
definition dash :: codeunit where "dash = 0x2D"

text \<open>
  \<open>String.prototype.trim\<close> removes the code units of ECMAScript's WhiteSpace and
  LineTerminator productions from both ends: TAB, VT, FF, SP, NBSP, ZWNBSP (U+FEFF), the
  other space separators of Unicode, LF, CR, LS and PS.
\<close>

definition isWhiteSpace :: "codeunit \<Rightarrow> bool" where
  "isWhiteSpace c \<longleftrightarrow>
     c = 0x09 \<or> c = 0x0A \<or> c = 0x0B \<or> c = 0x0C \<or> c = 0x0D \<or> c = 0x20 \<or> c = 0xA0 \<or>
     c = 0x1680 \<or> (0x2000 \<le> c \<and> c \<le> 0x200A) \<or> c = 0x2028 \<or> c = 0x2029 \<or>
     c = 0x202F \<or> c = 0x205F \<or> c = 0x3000 \<or> c = 0xFEFF"

definition trim :: "jsstring \<Rightarrow> jsstring" where
  "trim s = rev (dropWhile isWhiteSpace (rev (dropWhile isWhiteSpace s)))"

text \<open>
  \<open>s.split(sep)\<close> for a separator of one code unit: the pieces between the occurrences
  of \<open>sep\<close>, empty pieces included; the empty string gives one empty piece.
\<close>

fun splitOn :: "codeunit \<Rightarrow> jsstring \<Rightarrow> jsstring list" where
  "splitOn sep [] = [[]]"
| "splitOn sep (c # cs) =
     (if c = sep then [] # splitOn sep cs
      else (case splitOn sep cs of
              [] \<Rightarrow> [[c]]
            | p # ps \<Rightarrow> (c # p) # ps))"

text \<open>\<open>s.padStart(n, fill)\<close> for a fill string of one code unit.\<close>

definition padStart :: "nat \<Rightarrow> codeunit \<Rightarrow> jsstring \<Rightarrow> jsstring" where
  "padStart n fill s = replicate (n - length s) fill @ s"

text \<open>\<open>parts.join(sep)\<close>, the inverse of \<open>split\<close>.\<close>

fun joinOn :: "codeunit \<Rightarrow> jsstring list \<Rightarrow> jsstring" where
  "joinOn sep [] = []"
| "joinOn sep [p] = p"
| "joinOn sep (p # q # ps) = p @ sep # joinOn sep (q # ps)"

text \<open>The decimal digits \<open>0\<close> to \<open>9\<close>.\<close>

definition isDigit :: "codeunit \<Rightarrow> bool" where
  "isDigit c \<longleftrightarrow> 0x30 \<le> c \<and> c \<le> 0x39"

section \<open>parseEbirdDate\<close>

text \<open>
  \<open>months\<close> is an object literal, so \<open>months[key]\<close> finds the twelve own properties
  and, for any other key, whatever \<open>Object.prototype\<close> holds under that key: a built-in
  function for \<open>constructor\<close>, \<open>toString\<close>, \<open>valueOf\<close> and the like, the prototype
  object itself for \<open>__proto__\<close>, and \<open>undefined\<close> (here \<open>None\<close>) for the rest.
\<close>

datatype jsvalue =
    Str jsstring
  | NativeFunction jsstring
  | PrototypeObject

definition months :: "(jsstring \<times> jsstring) list" where
  "months =
     [(js ''Jan'', js ''01''), (js ''Feb'', js ''02''), (js ''Mar'', js ''03''),
      (js ''Apr'', js ''04''), (js ''May'', js ''05''), (js ''Jun'', js ''06''),
      (js ''Jul'', js ''07''), (js ''Aug'', js ''08''), (js ''Sep'', js ''09''),
      (js ''Oct'', js ''10''), (js ''Nov'', js ''11''), (js ''Dec'', js ''12'')]"

definition inheritedFunctions :: "jsstring list" where
  "inheritedFunctions =
     [js ''__defineGetter__'', js ''__defineSetter__'', js ''hasOwnProperty'',
      js ''__lookupGetter__'', js ''__lookupSetter__'', js ''isPrototypeOf'',
      js ''propertyIsEnumerable'', js ''toString'', js ''valueOf'', js ''toLocaleString'']"

definition objectPrototype :: "jsstring \<Rightarrow> jsvalue option" where
  "objectPrototype key =
     (if key = js ''constructor'' then Some (NativeFunction (js ''Object''))
      else if key \<in> set inheritedFunctions then Some (NativeFunction key)
      else if key = js ''__proto__'' then Some PrototypeObject
      else None)"

definition getProperty :: "(jsstring \<times> jsstring) list \<Rightarrow> jsstring \<Rightarrow> jsvalue option" where
  "getProperty obj key =
     (case map_of obj key of
        Some v \<Rightarrow> Some (Str v)
      | None \<Rightarrow> objectPrototype key)"

text \<open>Truthiness of a value, and its text inside a template literal (as Node prints it).\<close>

fun truthy :: "jsvalue \<Rightarrow> bool" where
  "truthy (Str s) = (s \<noteq> [])"
| "truthy (NativeFunction name) = True"
| "truthy PrototypeObject = True"

fun toString :: "jsvalue \<Rightarrow> jsstring" where
  "toString (Str s) = s"
| "toString (NativeFunction name) = js ''function '' @ name @ js ''() { [native code] }''"
| "toString PrototypeObject = js ''[object Object]''"

text \<open>\<open>None\<close> is the source's \<open>null\<close>.\<close>

definition parseEbirdDate :: "jsstring \<Rightarrow> jsstring option" where
  "parseEbirdDate dateStr =
     (let parts = splitOn space (trim dateStr) in
      if length parts \<noteq> 3 then None
      else
        let day = padStart 2 zero (parts ! 0);
            month = getProperty months (parts ! 1);
            year = parts ! 2
        in (case month of
              None \<Rightarrow> None
            | Some m \<Rightarrow>
                if \<not> truthy m then None
                else Some (year @ [dash] @ toString m @ [dash] @ day)))"

text \<open>
  The form \<open>D Mon YYYY\<close> of the export: a day of one or two digits, one of the twelve
  abbreviations and a year of four digits, with single spaces between them.
\<close>

definition isEbirdDate :: "jsstring \<Rightarrow> bool" where
  "isEbirdDate s \<longleftrightarrow>
     (case splitOn space s of
        [d, m, y] \<Rightarrow>
          (length d = 1 \<or> length d = 2) \<and> list_all isDigit d \<and> map_of months m \<noteq> None \<and>
          length y = 4 \<and> list_all isDigit y
      | _ \<Rightarrow> False)"

section \<open>parseCSV: tokenizer and field mapper\<close>

record observation =
  date :: jsstring
  sciName :: jsstring
  common :: jsstring
  location :: jsstring
  region :: jsstring

text \<open>
  The inner loop over the code units of one line, with its three variables
  \<open>columns\<close>, \<open>current\<close> and \<open>inQuotes\<close>; the last equation is the push after the loop.
\<close>

fun tokenLoop :: "jsstring \<Rightarrow> jsstring list \<Rightarrow> jsstring \<Rightarrow> bool \<Rightarrow> jsstring list" where
  "tokenLoop [] columns current inQuotes = columns @ [trim current]"
| "tokenLoop (char # rest) columns current inQuotes =
     (if char = quote then tokenLoop rest columns current (\<not> inQuotes)
      else if char = comma \<and> \<not> inQuotes then tokenLoop rest (columns @ [trim current]) [] inQuotes
      else tokenLoop rest columns (current @ [char]) inQuotes)"

definition tokenize :: "jsstring \<Rightarrow> jsstring list" where
  "tokenize line = tokenLoop line [] [] False"

text \<open>
  The body of \<open>if (columns.length >= 9)\<close>: the observation pushed for a row, or \<open>None\<close>
  when nothing is pushed. \<open>if (date)\<close> is false for \<open>null\<close> and for the empty string.
\<close>

definition mapRow :: "jsstring list \<Rightarrow> observation option" where
  "mapRow columns =
     (if 9 \<le> length columns then
        (case parseEbirdDate (columns ! 8) of
           None \<Rightarrow> None
         | Some d \<Rightarrow>
             if d = [] then None
             else Some \<lparr>date = d,
                        sciName = columns ! 4,
                        common = columns ! 3,
                        location = filter (\<lambda>c. c \<noteq> quote) (columns ! 6),
                        region = columns ! 7\<rparr>)
      else None)"

text \<open>The outer loop over \<open>lines[1]\<close>, \<open>lines[2]\<close>, ..., with the array \<open>observations\<close>.\<close>

fun rowLoop :: "jsstring list \<Rightarrow> observation list \<Rightarrow> observation list" where
  "rowLoop [] observations = observations"
| "rowLoop (l # ls) observations =
     (let line = trim l in
      if line = [] then rowLoop ls observations
      else (case mapRow (tokenize line) of
              None \<Rightarrow> rowLoop ls observations
            | Some ob \<Rightarrow> rowLoop ls (observations @ [ob])))"

text \<open>What one pass of the outer loop pushes for the line \<open>l\<close>, if anything.\<close>

definition lineObservation :: "jsstring \<Rightarrow> observation option" where
  "lineObservation l = (let line = trim l in if line = [] then None else mapRow (tokenize line))"

text \<open>The array \<open>observations\<close> as it stands before the final sort.\<close>

definition collectRows :: "jsstring \<Rightarrow> observation list" where
  "collectRows csvContent = rowLoop (drop 1 (splitOn newline csvContent)) []"

section \<open>Date.parse\<close>

text \<open>
  \<open>new Date(s)\<close> for a string is \<open>Date.parse(s)\<close>. ECMAScript fixes its value on the
  Date Time String Format; the strings \<open>parseEbirdDate\<close> builds can match its date-only
  forms \<open>YYYY-MM-DD\<close> and \<open>\<plusminus>YYYYYY-MM-DD\<close>, which are read as UTC midnight when the
  month and the day name a day of the calendar. On every other string the value is the
  engine's, the parameter \<open>otherFormats\<close>: a day that does not exist (\<open>2024-01-32\<close>,
  \<open>2024-02-30\<close>), a month outside 01..12, the year \<open>-000000\<close>, the date-time forms,
  which depend on the local time zone, and whatever the engine reads beyond the standard.
  \<open>None\<close> is the time value NaN of an Invalid Date. Time values are integers of
  milliseconds, exact in a double.
\<close>

definition digitsValue :: "jsstring \<Rightarrow> nat" where
  "digitsValue s = foldl (\<lambda>n c. 10 * n + (unat c - 48)) 0 s"

definition dateOnly :: "jsstring \<Rightarrow> (int \<times> nat \<times> nat) option" where
  "dateOnly s =
     (if length s = 10 \<and> list_all isDigit (take 4 s) \<and> s ! 4 = dash \<and>
         list_all isDigit (take 2 (drop 5 s)) \<and> s ! 7 = dash \<and> list_all isDigit (drop 8 s)
      then Some (int (digitsValue (take 4 s)),
                 digitsValue (take 2 (drop 5 s)),
                 digitsValue (drop 8 s))
      else if length s = 13 \<and> (s ! 0 = 0x2B \<or> s ! 0 = dash) \<and>
         list_all isDigit (take 6 (drop 1 s)) \<and> s ! 7 = dash \<and>
         list_all isDigit (take 2 (drop 8 s)) \<and> s ! 10 = dash \<and> list_all isDigit (drop 11 s)
      then Some ((if s ! 0 = dash then - int (digitsValue (take 6 (drop 1 s)))
                  else int (digitsValue (take 6 (drop 1 s)))),
                 digitsValue (take 2 (drop 8 s)),
                 digitsValue (drop 11 s))
      else None)"

definition DayFromYear :: "int \<Rightarrow> int" where
  "DayFromYear y = 365 * (y - 1970) + (y - 1969) div 4 - (y - 1901) div 100 + (y - 1601) div 400"

definition InLeapYear :: "int \<Rightarrow> bool" where
  "InLeapYear y \<longleftrightarrow> y mod 4 = 0 \<and> (y mod 100 \<noteq> 0 \<or> y mod 400 = 0)"

text \<open>The day within the year on which month \<open>m\<close> (0 = January) begins.\<close>

definition monthStart :: "bool \<Rightarrow> nat \<Rightarrow> int" where
  "monthStart leap m =
     [0, 31, 59, 90, 120, 151, 181, 212, 243, 273, 304, 334] ! m + (if leap \<and> 2 \<le> m then 1 else 0)"

definition MakeDay :: "int \<Rightarrow> nat \<Rightarrow> int \<Rightarrow> int" where
  "MakeDay year month dt = DayFromYear year + monthStart (InLeapYear year) month + dt - 1"

definition msPerDay :: int where
  "msPerDay = 86400000"

definition TimeClip :: "int \<Rightarrow> int option" where
  "TimeClip t = (if \<bar>t\<bar> > 8640000000000000 then None else Some t)"

text \<open>The number of days of month \<open>m\<close> (1 = January) of year \<open>y\<close>.\<close>

definition daysInMonth :: "int \<Rightarrow> nat \<Rightarrow> nat" where
  "daysInMonth y m =
     (if m = 2 then (if InLeapYear y then 29 else 28)
      else if m = 4 \<or> m = 6 \<or> m = 9 \<or> m = 11 then 30
      else 31)"

definition Date_parse :: "(jsstring \<Rightarrow> int option) \<Rightarrow> jsstring \<Rightarrow> int option" where
  "Date_parse otherFormats s =
     (case dateOnly s of
        None \<Rightarrow> otherFormats s
      | Some (y, m, d) \<Rightarrow>
          if 1 \<le> m \<and> m \<le> 12 \<and> 1 \<le> d \<and> d \<le> daysInMonth y m \<and> \<not> (s ! 0 = dash \<and> y = 0)
          then TimeClip (MakeDay y (m - 1) (int d) * msPerDay)
          else otherFormats s)"

text \<open>
  A calendar date written \<open>YYYY-MM-DD\<close>: four digits of year, a month from 01 to 12 and
  a day that exists in that month of that year.
\<close>

definition isCalendarDate :: "jsstring \<Rightarrow> bool" where
  "isCalendarDate s \<longleftrightarrow>
     length s = 10 \<and>
     (case dateOnly s of
        None \<Rightarrow> False
      | Some (y, m, d) \<Rightarrow> 1 \<le> m \<and> m \<le> 12 \<and> 1 \<le> d \<and> d \<le> daysInMonth y m)"

text \<open>
  An engine for which every string that the standard leaves open is an Invalid Date, as
  \<open>2024-01-32\<close> is in Node.
\<close>

definition noOtherFormats :: "jsstring \<Rightarrow> int option" where
  "noOtherFormats s = None"

section \<open>The sort of parseCSV\<close>

text \<open>
  The comparator \<open>(a, b) => new Date(a.date) - new Date(b.date)\<close>: the difference of
  the two time values, NaN (\<open>None\<close>) as soon as one of them is NaN.
\<close>

definition compareDates :: "(jsstring \<Rightarrow> int option) \<Rightarrow> observation \<Rightarrow> observation \<Rightarrow> int option" where
  "compareDates otherFormats a b =
     (case Date_parse otherFormats (date a) of
        None \<Rightarrow> None
      | Some x \<Rightarrow>
          (case Date_parse otherFormats (date b) of
             None \<Rightarrow> None
           | Some y \<Rightarrow> Some (x - y)))"

text \<open>
  \<open>Array.prototype.sort\<close> reads the comparator through \<open>SortCompare\<close>: a NaN result
  counts as zero, and \<open>x\<close> goes after \<open>y\<close> when the result is greater than zero.
\<close>

definition SortCompare :: "('a \<Rightarrow> 'a \<Rightarrow> int option) \<Rightarrow> 'a \<Rightarrow> 'a \<Rightarrow> int" where
  "SortCompare comparefn x y = (case comparefn x y of None \<Rightarrow> 0 | Some v \<Rightarrow> v)"

text \<open>
  The comparator, read so, is consistent on the array when "equal" is reflexive, symmetric
  and transitive and "less" and "greater" are transitive and mirror each other: the
  elements then fall into classes that are totally ordered.
\<close>

definition consistentOn :: "('a \<Rightarrow> 'a \<Rightarrow> int option) \<Rightarrow> 'a list \<Rightarrow> bool" where
  "consistentOn comparefn xs \<longleftrightarrow>
     list_all (\<lambda>a.
       SortCompare comparefn a a = 0 \<and>
       list_all (\<lambda>b.
         (SortCompare comparefn a b = 0 \<longrightarrow> SortCompare comparefn b a = 0) \<and>
         (SortCompare comparefn a b < 0 \<longrightarrow> 0 < SortCompare comparefn b a) \<and>
         (0 < SortCompare comparefn a b \<longrightarrow> SortCompare comparefn b a < 0) \<and>
         list_all (\<lambda>c.
           (SortCompare comparefn a b = 0 \<and> SortCompare comparefn b c = 0 \<longrightarrow>
              SortCompare comparefn a c = 0) \<and>
           (SortCompare comparefn a b < 0 \<and> SortCompare comparefn b c < 0 \<longrightarrow>
              SortCompare comparefn a c < 0) \<and>
           (0 < SortCompare comparefn a b \<and> 0 < SortCompare comparefn b c \<longrightarrow>
              0 < SortCompare comparefn a c)) xs) xs) xs"

fun insertBy :: "('a \<Rightarrow> 'a \<Rightarrow> int option) \<Rightarrow> 'a \<Rightarrow> 'a list \<Rightarrow> 'a list" where
  "insertBy comparefn x [] = [x]"
| "insertBy comparefn x (y # ys) =
     (if 0 < SortCompare comparefn x y
      then y # insertBy comparefn x ys
      else x # y # ys)"

text \<open>
  \<open>Array.prototype.sort\<close> is a stable sort. On a comparator that is consistent on the
  array a stable sort has one possible result, whatever the algorithm; it is computed here
  by insertion. On any other comparator (one Invalid Date among dates that differ is
  enough) the order is the engine's own: some rearrangement of the array, here the one that
  gives the element at index \<open>i\<close> the rank \<open>engineOrder comparefn xs i\<close>, elements of equal
  rank in index order. Every rearrangement is of this form, so the parameter
  \<open>engineOrder\<close> stands for whatever the engine does.
\<close>

definition arraySort ::
  "(('a \<Rightarrow> 'a \<Rightarrow> int option) \<Rightarrow> 'a list \<Rightarrow> nat \<Rightarrow> nat) \<Rightarrow> ('a \<Rightarrow> 'a \<Rightarrow> int option) \<Rightarrow>
     'a list \<Rightarrow> 'a list" where
  "arraySort engineOrder comparefn xs =
     (if consistentOn comparefn xs then foldr (insertBy comparefn) xs []
      else map (\<lambda>i. xs ! i) (sort_key (engineOrder comparefn xs) [0..<length xs]))"

text \<open>An engine that leaves such an array in its input order.\<close>

definition inputOrder :: "('a \<Rightarrow> 'a \<Rightarrow> int option) \<Rightarrow> 'a list \<Rightarrow> nat \<Rightarrow> nat" where
  "inputOrder comparefn xs i = i"

definition parseCSV ::
  "(jsstring \<Rightarrow> int option) \<Rightarrow>
   ((observation \<Rightarrow> observation \<Rightarrow> int option) \<Rightarrow> observation list \<Rightarrow> nat \<Rightarrow> nat) \<Rightarrow>
   jsstring \<Rightarrow> observation list" where
  "parseCSV otherFormats engineOrder csvContent =
     arraySort engineOrder (compareDates otherFormats) (collectRows csvContent)"

section \<open>getExistingProfile and the merge\<close>

text \<open>
  A value read by \<open>JSON.parse\<close>; an object is the list of its own properties, one entry
  per key. \<open>JSON.parse\<close> itself and \<open>fs.readFileSync\<close> are parameters: the text of
  \<open>data.json\<close> or the error thrown when it cannot be read, and the value parsed from a
  text or the error thrown on malformed JSON.
\<close>

datatype json =
    JNull
  | JBool bool
  | JNum real
  | JStr jsstring
  | JArr "json list"
  | JObj "(jsstring \<times> json) list"

datatype error = FileError | SyntaxError | TypeError

fun jsonTruthy :: "json \<Rightarrow> bool" where
  "jsonTruthy JNull = False"
| "jsonTruthy (JBool b) = b"
| "jsonTruthy (JNum x) = (x \<noteq> 0)"
| "jsonTruthy (JStr s) = (s \<noteq> [])"
| "jsonTruthy (JArr xs) = True"
| "jsonTruthy (JObj props) = True"

text \<open>
  \<open>existing.profile\<close>: a TypeError on \<open>null\<close>, the own property of an object, and
  \<open>undefined\<close> (\<open>None\<close>) on an object without it and on every other value.
\<close>

fun profileOf :: "json \<Rightarrow> error + json option" where
  "profileOf JNull = Inl TypeError"
| "profileOf (JObj props) = Inr (map_of props (js ''profile''))"
| "profileOf (JBool b) = Inr None"
| "profileOf (JNum x) = Inr None"
| "profileOf (JStr s) = Inr None"
| "profileOf (JArr xs) = Inr None"

text \<open>The body of the \<open>try\<close> block.\<close>

definition readProfile :: "(jsstring \<Rightarrow> error + json) \<Rightarrow> error + jsstring \<Rightarrow> error + json" where
  "readProfile JSON_parse file =
     (case file of
        Inl e \<Rightarrow> Inl e
      | Inr text \<Rightarrow>
          (case JSON_parse text of
             Inl e \<Rightarrow> Inl e
           | Inr existing \<Rightarrow>
               (case profileOf existing of
                  Inl e \<Rightarrow> Inl e
                | Inr None \<Rightarrow> Inr (JObj [])
                | Inr (Some p) \<Rightarrow> Inr (if jsonTruthy p then p else JObj []))))"

definition getExistingProfile :: "(jsstring \<Rightarrow> error + json) \<Rightarrow> error + jsstring \<Rightarrow> error + json" where
  "getExistingProfile JSON_parse file =
     (case readProfile JSON_parse file of
        Inl e \<Rightarrow> Inr (JObj [])
      | Inr p \<Rightarrow> Inr p)"

record export =
  profile :: "(jsstring \<times> json) list"
  observations :: "observation list"
  exportedAt :: jsstring

fun decimal :: "nat \<Rightarrow> jsstring" where
  "decimal n = (if n < 10 then [of_nat (48 + n)] else decimal (n div 10) @ [of_nat (48 + n mod 10)])"

text \<open>
  The properties that \<open>...existingProfile\<close> copies: those of an object, the indexed
  elements of an array or of a string, none of a number or a boolean.
\<close>

fun ownProperties :: "json \<Rightarrow> (jsstring \<times> json) list" where
  "ownProperties (JObj props) = props"
| "ownProperties (JArr xs) = map (\<lambda>i. (decimal i, xs ! i)) [0..<length xs]"
| "ownProperties (JStr s) = map (\<lambda>i. (decimal i, JStr [s ! i])) [0..<length s]"
| "ownProperties JNull = []"
| "ownProperties (JBool b) = []"
| "ownProperties (JNum x) = []"

text \<open>
  The object literal \<open>dataJson\<close>; \<open>lastSync\<close> and \<open>exportedAt\<close> are the texts of two
  successive \<open>new Date().toISOString()\<close>. A key that is already present keeps its place
  and takes the new value, a new key goes last.
\<close>

definition dataJson :: "json \<Rightarrow> observation list \<Rightarrow> jsstring \<Rightarrow> jsstring \<Rightarrow> export" where
  "dataJson existingProfile obs lastSyncNow exportedAtNow =
     \<lparr>profile = AList.update (js ''lastSync'') (JStr lastSyncNow) (ownProperties existingProfile),
      observations = obs,
      exportedAt = exportedAtNow\<rparr>"

text \<open>
  The part of \<open>fetchEbirdLifeList\<close> between reading the downloaded CSV and writing
  \<open>data.json\<close>.
\<close>

definition fetchEbirdLifeList ::
  "(jsstring \<Rightarrow> int option) \<Rightarrow>
   ((observation \<Rightarrow> observation \<Rightarrow> int option) \<Rightarrow> observation list \<Rightarrow> nat \<Rightarrow> nat) \<Rightarrow>
   (jsstring \<Rightarrow> error + json) \<Rightarrow> jsstring \<Rightarrow> error + jsstring \<Rightarrow> jsstring \<Rightarrow> jsstring \<Rightarrow>
     error + export" where
  "fetchEbirdLifeList otherFormats engineOrder JSON_parse csvContent file lastSyncNow exportedAtNow =
     (let obs = parseCSV otherFormats engineOrder csvContent in
      case getExistingProfile JSON_parse file of
        Inl e \<Rightarrow> Inl e
      | Inr existingProfile \<Rightarrow> Inr (dataJson existingProfile obs lastSyncNow exportedAtNow))"

section \<open>Facts about the string operations\<close>

lemma set_trim: "set (trim s) \<subseteq> set s"
proof -
  have "set (dropWhile isWhiteSpace (rev (dropWhile isWhiteSpace s))) \<subseteq> set (rev (dropWhile isWhiteSpace s))"
    by (rule set_dropWhileD [THEN subsetI])
  also have "\<dots> \<subseteq> set s"
    by (auto dest: set_dropWhileD)
  finally show ?thesis
    by (simp add: trim_def)
qed

lemma trim_Nil [simp]: "trim [] = []"
  by (simp add: trim_def)

lemma last_dropWhile: "dropWhile P xs \<noteq> [] \<Longrightarrow> last (dropWhile P xs) = last xs"
proof -
  assume a: "dropWhile P xs \<noteq> []"
  have "last xs = last (takeWhile P xs @ dropWhile P xs)"
    by simp
  also have "\<dots> = last (dropWhile P xs)"
    using a by (rule last_appendR)
  finally show ?thesis by simp
qed

text \<open>A trimmed string that is not empty begins and ends with a code unit that is not white space.\<close>

lemma trim_ends:
  assumes "trim s \<noteq> []"
  shows "\<not> isWhiteSpace (hd (trim s)) \<and> \<not> isWhiteSpace (last (trim s))"
proof -
  define u where "u = dropWhile isWhiteSpace s"
  define x where "x = dropWhile isWhiteSpace (rev u)"
  have t: "trim s = rev x"
    by (simp add: trim_def u_def x_def)
  with assms have x: "x \<noteq> []"
    by simp
  then have u: "u \<noteq> []"
    by (auto simp: x_def)
  have "\<not> isWhiteSpace (hd x)"
    using x unfolding x_def by (rule hd_dropWhile)
  then have l: "\<not> isWhiteSpace (last (trim s))"
    using x by (simp add: t last_rev)
  have "last x = last (rev u)"
    using x unfolding x_def by (rule last_dropWhile)
  then have "hd (trim s) = hd u"
    using x u by (simp add: t hd_rev last_rev)
  moreover have "\<not> isWhiteSpace (hd u)"
    using u unfolding u_def by (rule hd_dropWhile)
  ultimately show ?thesis
    using l by simp
qed

lemma trim_id:
  assumes "s = [] \<or> (\<not> isWhiteSpace (hd s) \<and> \<not> isWhiteSpace (last s))"
  shows "trim s = s"
proof (cases "s = []")
  case True
  then show ?thesis by simp
next
  case False
  with assms have h: "\<not> isWhiteSpace (hd s)" and l: "\<not> isWhiteSpace (last s)"
    by auto
  from False h have 1: "dropWhile isWhiteSpace s = s"
    by (cases s) auto
  from False l have 2: "dropWhile isWhiteSpace (rev s) = rev s"
    by (cases "rev s") (auto simp: last_rev [symmetric] simp del: last_rev)
  show ?thesis
    by (simp add: trim_def 1 2)
qed

lemma trim_trim: "trim (trim s) = trim s"
  using trim_ends [of s] trim_id [of "trim s"] by blast

lemma splitOn_not_Nil [simp]: "splitOn sep s \<noteq> []"
  by (induction s) (auto split: list.splits)

lemma splitOn_Cons:
  "splitOn sep (c # cs) =
     (if c = sep then [] # splitOn sep cs
      else (c # hd (splitOn sep cs)) # tl (splitOn sep cs))"
  by (cases "splitOn sep cs") auto

lemma splitOn_no_sep: "sep \<notin> set s \<Longrightarrow> splitOn sep s = [s]"
  by (induction s) auto

lemma splitOn_append: "sep \<notin> set x \<Longrightarrow> splitOn sep (x @ sep # rest) = x # splitOn sep rest"
  by (induction x) auto

lemma splitOn_subset: "p \<in> set (splitOn sep s) \<Longrightarrow> set p \<subseteq> set s"
proof (induction s arbitrary: p)
  case Nil
  then show ?case by simp
next
  case (Cons c cs)
  obtain q qs where q: "splitOn sep cs = q # qs"
    by (cases "splitOn sep cs") auto
  with Cons show ?case
    by (fastforce split: if_splits)
qed

lemma joinOn_splitOn: "joinOn sep (splitOn sep s) = s"
proof (induction s)
  case Nil
  show ?case by simp
next
  case (Cons c cs)
  obtain q qs where q: "splitOn sep cs = q # qs"
    by (cases "splitOn sep cs") auto
  with Cons show ?case
    by (cases qs) auto
qed

section \<open>The row tokenizer\<close>

lemma quote_neq_comma [simp]: "quote \<noteq> comma" "comma \<noteq> quote"
  by (simp_all add: quote_def comma_def)

lemma tokenLoop_columns: "tokenLoop cs columns current q = columns @ tokenLoop cs [] current q"
proof (induction cs arbitrary: columns current q)
  case Nil
  show ?case by simp
next
  case (Cons c cs)
  show ?case
  proof (cases "c \<noteq> quote \<and> c = comma \<and> \<not> q")
    case True
    then show ?thesis
      using Cons [of "columns @ [trim current]" "[]" q] Cons [of "[trim current]" "[]" q]
      by simp
  next
    case False
    then show ?thesis
      using Cons [of columns] by auto
  qed
qed

lemma tokenLoop_literal:
  "comma \<notin> set a \<Longrightarrow> quote \<notin> set a \<Longrightarrow>
     tokenLoop (a @ rest) columns current q = tokenLoop rest columns (current @ a) q"
  by (induction a arbitrary: current) auto

lemma tokenLoop_quoted:
  "quote \<notin> set b \<Longrightarrow>
     tokenLoop (b @ rest) columns current True = tokenLoop rest columns (current @ b) True"
  by (induction b arbitrary: current) auto

lemma tokenLoop_unquoted:
  "quote \<notin> set cs \<Longrightarrow>
     tokenLoop cs [] current False =
       map trim ((current @ hd (splitOn comma cs)) # tl (splitOn comma cs))"
proof (induction cs arbitrary: current)
  case Nil
  show ?case by simp
next
  case (Cons c cs)
  then have q: "quote \<notin> set cs" and c: "c \<noteq> quote"
    by auto
  show ?case
  proof (cases "c = comma")
    case True
    have "tokenLoop (c # cs) [] current False = tokenLoop cs [trim current] [] False"
      using True by simp
    also have "\<dots> = trim current # tokenLoop cs [] [] False"
      using tokenLoop_columns [of cs "[trim current]" "[]" False] by simp
    also have "tokenLoop cs [] [] False = map trim (hd (splitOn comma cs) # tl (splitOn comma cs))"
      using Cons.IH [OF q, of "[]"] by simp
    finally show ?thesis
      using True by simp
  next
    case False
    then show ?thesis
      using c Cons.IH [OF q, of "current @ [c]"] by (simp add: splitOn_Cons del: splitOn.simps)
  qed
qed

lemma tokenize_unquoted: "quote \<notin> set line \<Longrightarrow> tokenize line = map trim (splitOn comma line)"
  using tokenLoop_unquoted [of line "[]"] by (simp add: tokenize_def)

lemma tokenize_field:
  assumes "comma \<notin> set a" "quote \<notin> set a"
  shows "tokenize (a @ comma # rest) = trim a # tokenize rest"
proof -
  have "tokenize (a @ comma # rest) = tokenLoop (comma # rest) [] a False"
    using assms by (simp add: tokenize_def tokenLoop_literal)
  also have "\<dots> = tokenLoop rest [trim a] [] False"
    by simp
  also have "\<dots> = trim a # tokenize rest"
    using tokenLoop_columns [of rest "[trim a]" "[]" False] by (simp add: tokenize_def)
  finally show ?thesis .
qed

lemma tokenLoop_quoted_section:
  assumes "comma \<notin> set a" "quote \<notin> set a" "quote \<notin> set b"
  shows "tokenLoop (a @ quote # b @ quote # rest) [] [] False = tokenLoop rest [] (a @ b) False"
proof -
  have "tokenLoop (a @ quote # b @ quote # rest) [] [] False = tokenLoop (quote # b @ quote # rest) [] a False"
    using assms by (simp add: tokenLoop_literal)
  also have "\<dots> = tokenLoop (b @ quote # rest) [] a True"
    by simp
  also have "\<dots> = tokenLoop (quote # rest) [] (a @ b) True"
    using assms by (simp add: tokenLoop_quoted)
  also have "\<dots> = tokenLoop rest [] (a @ b) False"
    by simp
  finally show ?thesis .
qed

lemma tokenize_quoted_field:
  assumes "comma \<notin> set a" "quote \<notin> set a" "quote \<notin> set b" "comma \<notin> set c" "quote \<notin> set c"
  shows "tokenize (a @ quote # b @ quote # c @ comma # rest) = trim (a @ b @ c) # tokenize rest"
proof -
  have "tokenize (a @ quote # b @ quote # c @ comma # rest) = tokenLoop (c @ comma # rest) [] (a @ b) False"
    using assms tokenLoop_quoted_section [of a b "c @ comma # rest"] by (simp add: tokenize_def)
  also have "\<dots> = tokenLoop (comma # rest) [] (a @ b @ c) False"
    using assms by (simp add: tokenLoop_literal)
  also have "\<dots> = tokenLoop rest [trim (a @ b @ c)] [] False"
    by simp
  also have "\<dots> = trim (a @ b @ c) # tokenize rest"
    using tokenLoop_columns [of rest "[trim (a @ b @ c)]" "[]" False] by (simp add: tokenize_def)
  finally show ?thesis .
qed

lemma tokenize_quoted_last:
  assumes "comma \<notin> set a" "quote \<notin> set a" "quote \<notin> set b" "comma \<notin> set c" "quote \<notin> set c"
  shows "tokenize (a @ quote # b @ quote # c) = [trim (a @ b @ c)]"
proof -
  have "tokenize (a @ quote # b @ quote # c) = tokenLoop c [] (a @ b) False"
    using assms tokenLoop_quoted_section [of a b c] by (simp add: tokenize_def)
  also have "\<dots> = tokenLoop [] [] (a @ b @ c) False"
    using assms tokenLoop_literal [of c "[]" "[]" "a @ b" False] by simp
  finally show ?thesis by simp
qed

lemma tokenLoop_trimmed:
  "\<forall>f \<in> set columns. trim f = f \<Longrightarrow> \<forall>f \<in> set (tokenLoop cs columns current q). trim f = f"
proof (induction cs arbitrary: columns current q)
  case Nil
  then show ?case
    by (simp add: trim_trim)
next
  case (Cons c cs)
  have ext: "\<forall>f \<in> set (columns @ [trim current]). trim f = f"
    using Cons.prems by (simp add: trim_trim)
  show ?case
    using Cons.IH [OF Cons.prems] Cons.IH [OF ext] by simp
qed

lemma tokenLoop_no_quote:
  "\<forall>f \<in> set columns. quote \<notin> set f \<Longrightarrow> quote \<notin> set current \<Longrightarrow>
     \<forall>f \<in> set (tokenLoop cs columns current q). quote \<notin> set f"
proof (induction cs arbitrary: columns current q)
  case Nil
  then show ?case
    using set_trim [of current] by auto
next
  case (Cons c cs)
  have t: "quote \<notin> set (trim current)"
    using Cons.prems(2) set_trim [of current] by auto
  have ext: "\<forall>f \<in> set (columns @ [trim current]). quote \<notin> set f"
    using Cons.prems(1) t by simp
  have 1: "\<forall>f\<in>set (tokenLoop cs columns current (\<not> q)). quote \<notin> set f"
    using Cons.prems by (rule Cons.IH)
  have 2: "\<forall>f\<in>set (tokenLoop cs (columns @ [trim current]) [] q). quote \<notin> set f"
    using ext by (rule Cons.IH) simp
  have 3: "c \<noteq> quote \<Longrightarrow> \<forall>f\<in>set (tokenLoop cs columns (current @ [c]) q). quote \<notin> set f"
    using Cons.prems(1) by (rule Cons.IH) (use Cons.prems(2) in simp)
  show ?case
    using 1 2 3 by (simp del: tokenLoop.simps add: tokenLoop.simps(2) [of c cs columns current q])
qed

lemma tokenize_no_quote: "f \<in> set (tokenize line) \<Longrightarrow> quote \<notin> set f"
  using tokenLoop_no_quote [of "[]" "[]" line False] by (simp add: tokenize_def)

lemma length_filter_upt_Suc:
  "length (filter P [0..<Suc n]) = (if P 0 then 1 else 0) + length (filter (\<lambda>j. P (Suc j)) [0..<n])"
proof -
  have "[0..<Suc n] = 0 # map Suc [0..<n]"
    by (simp add: upt_conv_Cons map_Suc_upt del: upt_Suc)
  then show ?thesis
    by (simp add: filter_map comp_def del: upt_Suc)
qed

lemma tokenLoop_length:
  "length (tokenLoop cs columns current q) =
     length columns + Suc (length (filter (\<lambda>j. cs ! j = comma \<and> even (count_list (take j cs) quote) = (\<not> q)) [0..<length cs]))"
proof (induction cs arbitrary: columns current q)
  case Nil
  show ?case by simp
next
  case (Cons c cs)
  have len: "length (c # cs) = Suc (length cs)"
    by simp
  show ?case
  proof (cases "c = quote")
    case True
    then show ?thesis
      unfolding len length_filter_upt_Suc
      by (simp add: Cons del: upt_Suc)
  next
    case False
    then show ?thesis
      unfolding len length_filter_upt_Suc
      by (simp add: Cons del: upt_Suc)
  qed
qed

text \<open>
  Claim C5. The tokenizer splits a line on commas, a \<open>"\<close> toggles a mode in which
  commas are literal, and every field is trimmed. In particular \<open>A,"B, C",D\<close> gives the
  three fields \<open>A\<close>, \<open>B, C\<close> and \<open>D\<close>. In general: a line without quotes is split
  at every comma and each piece trimmed; a piece \<open>a\<close> without comma or quote that is
  followed by a comma is one field; a quoted section \<open>b\<close> joins the field around it whole,
  its commas included, and the field ends at the next comma outside quotes or at the end of
  the line; every field returned is trimmed; and the number of fields is one more than
  the number of commas that have an even number of quotes before them.
\<close>

theorem tokenize_quote_toggle:
  \<open>tokenize (js ''A,"B, C",D'') = [js ''A'', js ''B, C'', js ''D''] \<and>
   (quote \<notin> set line \<longrightarrow> tokenize line = map trim (splitOn comma line)) \<and>
   (comma \<notin> set a \<and> quote \<notin> set a \<longrightarrow> tokenize (a @ comma # rest) = trim a # tokenize rest) \<and>
   (comma \<notin> set a \<and> quote \<notin> set a \<and> quote \<notin> set b \<and> comma \<notin> set c \<and> quote \<notin> set c \<longrightarrow>
      tokenize (a @ quote # b @ quote # c @ comma # rest) = trim (a @ b @ c) # tokenize rest \<and>
      tokenize (a @ quote # b @ quote # c) = [trim (a @ b @ c)]) \<and>
   (\<forall>f \<in> set (tokenize line). trim f = f) \<and>
   length (tokenize line) =
     Suc (length (filter (\<lambda>j. line ! j = comma \<and> even (count_list (take j line) quote))
                    [0..<length line]))\<close>
proof -
  have 1: \<open>tokenize (js ''A,"B, C",D'') = [js ''A'', js ''B, C'', js ''D'']\<close>
    by code_simp
  have 5: "\<forall>f \<in> set (tokenize line). trim f = f"
    using tokenLoop_trimmed [of "[]" line "[]" False] by (simp add: tokenize_def)
  have 6: "length (tokenize line) =
     Suc (length (filter (\<lambda>j. line ! j = comma \<and> even (count_list (take j line) quote))
                    [0..<length line]))"
    using tokenLoop_length [of line "[]" "[]" False] by (simp add: tokenize_def)
  show ?thesis
    using 1 5 6 tokenize_unquoted tokenize_field tokenize_quoted_field tokenize_quoted_last
    by blast
qed

text \<open>
  Instances: a line without quotes, a line whose second field is quoted and holds a
  comma, and a line that is one quoted field.
\<close>

theorem tokenize_quote_toggle_witness:
  \<open>quote \<notin> set (js ''a, b ,c'') \<and>
   tokenize (js ''a, b ,c'') = [js ''a'', js ''b'', js ''c''] \<and>
   tokenize (js ''x ,"p, q" ,z'') = [js ''x'', js ''p, q'', js ''z''] \<and>
   tokenize (js ''"p, q" '') = [js ''p, q''] \<and>
   trim (tokenize (js ''x ,"p, q" ,z'') ! 1) = tokenize (js ''x ,"p, q" ,z'') ! 1 \<and>
   length (tokenize (js ''x ,"p, q" ,z'')) = 3\<close>
proof -
  define line where \<open>line = js ''x ,"p, q" ,z''\<close>
  have nq: "quote \<notin> set (js ''a, b ,c'')"
    by code_simp
  have pa: "comma \<notin> set (js ''x '') \<and> quote \<notin> set (js ''x '')"
    by code_simp
  have pb: "comma \<notin> set [] \<and> quote \<notin> set [] \<and> quote \<notin> set (js ''p, q'') \<and>
      comma \<notin> set (js '' '') \<and> quote \<notin> set (js '' '')"
    by code_simp
  have pz: "quote \<notin> set (js ''z'')"
    by code_simp
  have e1: "map trim (splitOn comma (js ''a, b ,c'')) = [js ''a'', js ''b'', js ''c'']"
    by code_simp
  have e2: \<open>js ''x '' @ comma # [] @ quote # js ''p, q'' @ quote # js '' '' @ comma # js ''z'' = line\<close>
    unfolding line_def by code_simp
  have e3: \<open>[] @ quote # js ''p, q'' @ quote # js '' '' = js ''"p, q" ''\<close>
    by code_simp
  have e4: "trim (js ''x '') = js ''x'' \<and> trim ([] @ js ''p, q'' @ js '' '') = js ''p, q'' \<and>
      map trim (splitOn comma (js ''z'')) = [js ''z'']"
    by code_simp
  have e5: "length (filter (\<lambda>j. line ! j = comma \<and> even (count_list (take j line) quote))
      [0..<length line]) = 2"
    unfolding line_def by code_simp
  note T = tokenize_quote_toggle
  have t1: "tokenize (js ''a, b ,c'') = [js ''a'', js ''b'', js ''c'']"
    using T [of "js ''a, b ,c''"] nq e1 by simp
  have tz: "tokenize (js ''z'') = [js ''z'']"
    using T [of "js ''z''"] pz e4 by simp
  have tq: "tokenize ([] @ quote # js ''p, q'' @ quote # js '' '' @ comma # js ''z'') = [js ''p, q'', js ''z'']"
    using T [of _ "[]" "js ''z''" "js ''p, q''" "js '' ''"] pb tz e4 by simp
  have t2: "tokenize line = [js ''x'', js ''p, q'', js ''z'']"
    using T [of _ "js ''x ''" "[] @ quote # js ''p, q'' @ quote # js '' '' @ comma # js ''z''"] pa tq e2 e4
    by simp
  have t3: \<open>tokenize (js ''"p, q" '') = [js ''p, q'']\<close>
    using T [of _ "[]" _ "js ''p, q''" "js '' ''"] pb e3 e4 by simp
  have t4: "trim (tokenize line ! 1) = tokenize line ! 1"
    using T [of line] t2 by simp
  have t5: "length (tokenize line) = 3"
    using T [of line] e5 by simp
  show ?thesis
    using nq t1 t2 t3 t4 t5 unfolding line_def by simp
qed

section \<open>The date normalizer\<close>

lemma months_nonempty: "map_of months m = Some mm \<Longrightarrow> mm \<noteq> []"
  by (auto simp: months_def js_def split: if_splits)

lemma parseEbirdDate_tokens:
  assumes "splitOn space (trim s) = [d, m, y]"
    and "map_of months m = Some mm"
  shows "parseEbirdDate s = Some (y @ [dash] @ mm @ [dash] @ padStart 2 zero d)"
  using assms months_nonempty [OF assms(2)]
  by (simp add: parseEbirdDate_def getProperty_def)

text \<open>
  Claim C10. Only the number of tokens and the month token are checked. Whenever the
  trimmed string splits on single spaces into exactly three tokens \<open>d\<close>, \<open>m\<close>, \<open>y\<close> and
  \<open>m\<close> is one of the twelve abbreviations, with number \<open>mm\<close>, the result is \<open>y-mm-\<close>
  followed by \<open>d\<close> padded on the left with \<open>0\<close> to two code units. Nothing is asked of
  \<open>d\<close> and \<open>y\<close>: they need not be digits, and \<open>y\<close> need not have four of them.
\<close>

theorem parseEbirdDate_three_tokens:
  assumes "splitOn space (trim s) = [d, m, y]"
    and "map_of months m = Some mm"
  shows "parseEbirdDate s = Some (y @ [dash] @ mm @ [dash] @ padStart 2 zero d)"
  using assms by (rule parseEbirdDate_tokens)

text \<open>The instance \<open>x Jan 20244\<close>, which becomes \<open>20244-01-0x\<close>.\<close>

theorem parseEbirdDate_three_tokens_witness:
  "splitOn space (trim (js ''x Jan 20244'')) = [js ''x'', js ''Jan'', js ''20244''] \<and>
   map_of months (js ''Jan'') = Some (js ''01'') \<and>
   parseEbirdDate (js ''x Jan 20244'') = Some (js ''20244-01-0x'')"
proof -
  have 1: "splitOn space (trim (js ''x Jan 20244'')) = [js ''x'', js ''Jan'', js ''20244'']"
    by code_simp
  have 2: "map_of months (js ''Jan'') = Some (js ''01'')"
    by code_simp
  have 3: "js ''20244'' @ [dash] @ js ''01'' @ [dash] @ padStart 2 zero (js ''x'') = js ''20244-01-0x''"
    by code_simp
  from parseEbirdDate_three_tokens [OF 1 2] 1 2 3 show ?thesis
    by simp
qed

text \<open>
  The two rejections of \<open>parseEbirdDate\<close>: a number of tokens other than three, and a
  month token that names neither one of the twelve months nor a property of
  \<open>Object.prototype\<close>.
\<close>

lemma parseEbirdDate_token_count:
  "length (splitOn space (trim s)) \<noteq> 3 \<Longrightarrow> parseEbirdDate s = None"
  by (simp add: parseEbirdDate_def)

lemma parseEbirdDate_unknown_month:
  assumes "splitOn space (trim s) = [d, m, y]"
    and "map_of months m = None" and "objectPrototype m = None"
  shows "parseEbirdDate s = None"
  using assms by (simp add: parseEbirdDate_def getProperty_def)

text \<open>
  The tokens are the pieces between single spaces (U+0020): any other white space inside
  the trimmed string, here a tab, stays inside a token.
\<close>

lemma parseEbirdDate_splits_on_space_only:
  "parseEbirdDate (js ''5'' @ [0x09] @ js ''6 Jan 2024'') = Some (js ''2024-01-5'' @ [0x09] @ js ''6'')"
  by code_simp

text \<open>
  Claim C2. A string of the form \<open>D Mon YYYY\<close> is normalized to \<open>YYYY-MM-DD\<close>, and a
  string that does not split into exactly three parts, or whose month token is not one of
  the twelve abbreviations, should give \<open>null\<close>. The month is looked up with
  \<open>months[parts[1]]\<close>, which also finds the properties that \<open>months\<close> inherits from
  \<open>Object.prototype\<close>: for the month token \<open>constructor\<close> the lookup returns the
  function \<open>Object\<close>, the test \<open>!month\<close> lets it through, and the text of the function
  ends up in the date.
\<close>

theorem parseEbirdDate_inherited_month:
  "parseEbirdDate (js ''5 constructor 2024'') =
     Some (js ''2024-function Object() { [native code] }-05'')"
  by code_simp

section \<open>The rows of parseCSV\<close>

lemma mset_insertBy: "mset (insertBy f x ys) = add_mset x (mset ys)"
  by (induction ys) auto

lemma mset_insertion: "mset (foldr (insertBy f) xs []) = mset xs"
  by (induction xs) (simp_all add: mset_insertBy)

text \<open>Whatever the comparator and the engine, the sort returns a rearrangement of the array.\<close>

lemma mset_arraySort: "mset (arraySort e f xs) = mset xs"
proof (cases "consistentOn f xs")
  case True
  then show ?thesis
    by (simp add: arraySort_def mset_insertion)
next
  case False
  have "mset (map (\<lambda>i. xs ! i) (sort_key (e f xs) [0..<length xs])) =
      image_mset (\<lambda>i. xs ! i) (mset (sort_key (e f xs) [0..<length xs]))"
    by simp
  also have "\<dots> = image_mset (\<lambda>i. xs ! i) (mset [0..<length xs])"
    by simp
  also have "\<dots> = mset (map (\<lambda>i. xs ! i) [0..<length xs])"
    by simp
  also have "\<dots> = mset xs"
    by (simp add: map_nth)
  finally show ?thesis
    using False by (simp add: arraySort_def)
qed

lemma set_arraySort: "set (arraySort e f xs) = set xs"
  using mset_arraySort [of e f xs] by (metis set_mset_mset)

lemma length_arraySort: "length (arraySort e f xs) = length xs"
  using mset_arraySort [of e f xs] by (metis size_mset)

lemma rowLoop_map_filter: "rowLoop ls acc = acc @ List.map_filter lineObservation ls"
  by (induction ls arbitrary: acc) (auto simp: lineObservation_def List.map_filter_simps Let_def split: option.splits)

lemma collectRows_map_filter:
  "collectRows csvContent = List.map_filter lineObservation (drop 1 (splitOn newline csvContent))"
  by (simp add: collectRows_def rowLoop_map_filter)

lemma map_filter_filter:
  "(\<And>x. x \<in> set xs \<Longrightarrow> \<not> P x \<Longrightarrow> f x = None) \<Longrightarrow> List.map_filter f (filter P xs) = List.map_filter f xs"
  by (induction xs) (auto simp: List.map_filter_simps split: option.splits)

lemma set_map_filter: "set (List.map_filter f xs) = {y. \<exists>x \<in> set xs. f x = Some y}"
  by (induction xs) (auto simp: List.map_filter_simps split: option.splits)

lemma toString_no_quote:
  assumes "getProperty months key = Some v" and "quote \<notin> set key"
  shows "quote \<notin> set (toString v)"
proof (cases "map_of months key")
  case (Some mm)
  then have "mm \<in> snd ` set months"
    by (metis map_of_SomeD image_eqI snd_conv)
  then have "quote \<notin> set mm"
    by (auto simp: months_def js_def quote_def)
  with Some assms show ?thesis
    by (auto simp: getProperty_def)
next
  case None
  have l: "quote \<notin> set (js ''function '')" "quote \<notin> set (js ''() { [native code] }'')"
    "quote \<notin> set (js ''Object'')" "quote \<notin> set (js ''[object Object]'')"
    by (simp_all add: js_def quote_def)
  from None assms have "objectPrototype key = Some v"
    by (simp add: getProperty_def)
  then show ?thesis
    using assms(2) l by (auto simp: objectPrototype_def split: if_splits)
qed

lemma parseEbirdDate_no_quote:
  assumes "parseEbirdDate s = Some d" and "quote \<notin> set s"
  shows "quote \<notin> set d"
proof -
  define parts where "parts = splitOn space (trim s)"
  from assms(1) have len: "length parts = 3"
    by (auto simp: parseEbirdDate_def parts_def Let_def split: if_splits)
  have sub: "\<And>p. p \<in> set parts \<Longrightarrow> quote \<notin> set p"
    using splitOn_subset [of _ space "trim s"] set_trim [of s] assms(2) unfolding parts_def by blast
  have p: "quote \<notin> set (parts ! 0)" "quote \<notin> set (parts ! 1)" "quote \<notin> set (parts ! 2)"
    using len by (auto intro!: sub)
  from assms(1) len obtain v where v: "getProperty months (parts ! 1) = Some v"
    and d: "d = parts ! 2 @ [dash] @ toString v @ [dash] @ padStart 2 zero (parts ! 0)"
    by (auto simp: parseEbirdDate_def parts_def [symmetric] Let_def split: if_splits option.splits)
  have "quote \<notin> set (toString v)"
    using v p(2) by (rule toString_no_quote)
  then show ?thesis
    using p by (auto simp: d padStart_def dash_def zero_def quote_def)
qed

lemma mapRow_no_quote:
  assumes "mapRow columns = Some ob" and "\<forall>f \<in> set columns. quote \<notin> set f"
  shows "quote \<notin> set (date ob) \<and> quote \<notin> set (sciName ob) \<and> quote \<notin> set (common ob) \<and>
    quote \<notin> set (location ob) \<and> quote \<notin> set (region ob)"
proof -
  from assms(1) have len: "9 \<le> length columns"
    by (auto simp: mapRow_def split: if_splits)
  then have c: "quote \<notin> set (columns ! 3)" "quote \<notin> set (columns ! 4)" "quote \<notin> set (columns ! 7)"
    "quote \<notin> set (columns ! 8)"
    using assms(2) by auto
  from assms(1) len obtain d where d: "parseEbirdDate (columns ! 8) = Some d"
    and ob: "ob = \<lparr>date = d, sciName = columns ! 4, common = columns ! 3,
      location = filter (\<lambda>c. c \<noteq> quote) (columns ! 6), region = columns ! 7\<rparr>"
    by (auto simp: mapRow_def split: if_splits option.splits)
  have "quote \<notin> set d"
    using d c(4) by (rule parseEbirdDate_no_quote)
  then show ?thesis
    using c by (simp add: ob)
qed

lemma lineObservation_no_quote:
  assumes "lineObservation l = Some ob"
  shows "quote \<notin> set (date ob) \<and> quote \<notin> set (sciName ob) \<and> quote \<notin> set (common ob) \<and>
    quote \<notin> set (location ob) \<and> quote \<notin> set (region ob)"
proof -
  from assms have "mapRow (tokenize (trim l)) = Some ob"
    by (auto simp: lineObservation_def Let_def split: if_splits)
  then show ?thesis
    using tokenize_no_quote by (intro mapRow_no_quote) auto
qed

lemma set_parseCSV:
  "set (parseCSV otherFormats engineOrder csvContent) =
     {ob. \<exists>l \<in> set (drop 1 (splitOn newline csvContent)). lineObservation l = Some ob}"
  by (simp add: parseCSV_def set_arraySort collectRows_map_filter set_map_filter)

text \<open>A single observation is returned as it is: a comparison of a date with itself is zero.\<close>

lemma SortCompare_self: "SortCompare (compareDates otherFormats) a a = 0"
  by (simp add: SortCompare_def compareDates_def split: option.splits)

lemma parseCSV_one:
  assumes "collectRows csvContent = [ob]"
  shows "parseCSV otherFormats engineOrder csvContent = [ob]"
  by (simp add: parseCSV_def assms arraySort_def consistentOn_def SortCompare_self)

text \<open>
  Claim C9. No field that the tokenizer returns contains the quote character, so removing
  quotes from a field changes nothing; no field of an observation in the output of
  \<open>parseCSV\<close> contains a quote; and the \<open>replace\<close> applied to column 6 is a no-op: the
  location of an observation is column 6 as tokenized.
\<close>

theorem no_quote_in_output:
  "(\<forall>f \<in> set (tokenize line). quote \<notin> set f \<and> filter (\<lambda>c. c \<noteq> quote) f = f) \<and>
   (\<forall>ob \<in> set (parseCSV otherFormats engineOrder csvContent).
      quote \<notin> set (date ob) \<and> quote \<notin> set (sciName ob) \<and> quote \<notin> set (common ob) \<and>
      quote \<notin> set (location ob) \<and> quote \<notin> set (region ob)) \<and>
   (mapRow (tokenize line) = Some ob \<longrightarrow> location ob = tokenize line ! 6)"
proof -
  have 1: "\<forall>f \<in> set (tokenize line). quote \<notin> set f \<and> filter (\<lambda>c. c \<noteq> quote) f = f"
    using tokenize_no_quote by (auto simp: filter_id_conv)
  have 2: "\<forall>ob \<in> set (parseCSV otherFormats engineOrder csvContent).
      quote \<notin> set (date ob) \<and> quote \<notin> set (sciName ob) \<and> quote \<notin> set (common ob) \<and>
      quote \<notin> set (location ob) \<and> quote \<notin> set (region ob)"
    unfolding set_parseCSV using lineObservation_no_quote by blast
  have 3: "location ob = tokenize line ! 6" if m: "mapRow (tokenize line) = Some ob"
  proof -
    from m have len: "9 \<le> length (tokenize line)"
      by (auto simp: mapRow_def split: if_splits)
    then have "tokenize line ! 6 \<in> set (tokenize line)"
      by simp
    with 1 have "filter (\<lambda>c. c \<noteq> quote) (tokenize line ! 6) = tokenize line ! 6"
      by blast
    with m len show ?thesis
      by (auto simp: mapRow_def split: if_splits option.splits)
  qed
  show ?thesis
    using 1 2 3 by blast
qed

text \<open>A row whose location is quoted and holds a comma.\<close>

theorem no_quote_in_output_witness:
  \<open>quote \<in> set (js ''1,c,t,Robin,Turdus,s,"Park, NY",US-NY,5 Jan 2024'') \<and>
   tokenize (js ''1,c,t,Robin,Turdus,s,"Park, NY",US-NY,5 Jan 2024'') ! 6 = js ''Park, NY'' \<and>
   quote \<notin> set (tokenize (js ''1,c,t,Robin,Turdus,s,"Park, NY",US-NY,5 Jan 2024'') ! 6) \<and>
   parseCSV noOtherFormats inputOrder (js ''h\<newline>1,c,t,Robin,Turdus,s,"Park, NY",US-NY,5 Jan 2024'') =
     [\<lparr>date = js ''2024-01-05'', sciName = js ''Turdus'', common = js ''Robin'',
       location = js ''Park, NY'', region = js ''US-NY''\<rparr>] \<and>
   quote \<notin> set (js ''2024-01-05'') \<and> quote \<notin> set (js ''Park, NY'')\<close>
proof -
  define line where \<open>line = js ''1,c,t,Robin,Turdus,s,"Park, NY",US-NY,5 Jan 2024''\<close>
  define csv where \<open>csv = js ''h\<newline>1,c,t,Robin,Turdus,s,"Park, NY",US-NY,5 Jan 2024''\<close>
  define ob where "ob = \<lparr>date = js ''2024-01-05'', sciName = js ''Turdus'', common = js ''Robin'',
       location = js ''Park, NY'', region = js ''US-NY''\<rparr>"
  have q: "quote \<in> set line"
    unfolding line_def by code_simp
  have t: "tokenize line = [js ''1'', js ''c'', js ''t'', js ''Robin'', js ''Turdus'', js ''s'',
      js ''Park, NY'', js ''US-NY'', js ''5 Jan 2024'']"
    unfolding line_def by code_simp
  have "collectRows csv = [ob]"
    unfolding csv_def ob_def by code_simp
  then have p: "parseCSV noOtherFormats inputOrder csv = [ob]"
    by (rule parseCSV_one)
  note T = no_quote_in_output [of line noOtherFormats inputOrder csv]
  have m: "js ''Park, NY'' \<in> set (tokenize line)"
    by (simp add: t)
  have 1: "quote \<notin> set (js ''Park, NY'')"
    using T m by blast
  have "ob \<in> set (parseCSV noOtherFormats inputOrder csv)"
    by (simp add: p)
  then have "quote \<notin> set (date ob)"
    using T by blast
  then have 2: "quote \<notin> set (js ''2024-01-05'')"
    by (simp add: ob_def)
  show ?thesis
    using q t p 1 2 unfolding line_def csv_def ob_def by simp
qed

lemma isDigit_not_space: "isDigit c \<Longrightarrow> \<not> isWhiteSpace c"
  by (auto simp: isDigit_def isWhiteSpace_def word_le_nat_alt)

lemma splitOn_three:
  assumes "splitOn sep s = [a, b, c]"
  shows "s = a @ sep # b @ sep # c"
  using joinOn_splitOn [of sep s] assms by simp

lemma isEbirdDate_parse:
  assumes "isEbirdDate s"
  shows "\<exists>d m y mm. s = d @ space # m @ space # y \<and> map_of months m = Some mm \<and>
    (length d = 1 \<or> length d = 2) \<and> list_all isDigit d \<and> length y = 4 \<and> list_all isDigit y \<and>
    parseEbirdDate s = Some (y @ [dash] @ mm @ [dash] @ padStart 2 zero d)"
proof -
  from assms obtain d m y where sp: "splitOn space s = [d, m, y]"
    and d: "length d = 1 \<or> length d = 2" "list_all isDigit d"
    and m: "map_of months m \<noteq> None"
    and y: "length y = 4" "list_all isDigit y"
    by (auto simp: isEbirdDate_def split: list.splits)
  from m obtain mm where mm: "map_of months m = Some mm"
    by auto
  have s: "s = d @ space # m @ space # y"
    using sp by (rule splitOn_three)
  have dn: "d \<noteq> []" and yn: "y \<noteq> []"
    using d(1) y(1) by auto
  have "hd s = hd d"
    using dn by (simp add: s)
  moreover have "isDigit (hd d)"
    using dn d(2) by (cases d) auto
  moreover have "last s = last y"
    using yn by (simp add: s)
  moreover have "isDigit (last y)"
    using yn y(2) by (metis last_in_set list_all_iff)
  ultimately have "trim s = s"
    by (intro trim_id) (auto dest: isDigit_not_space)
  with sp have "splitOn space (trim s) = [d, m, y]"
    by simp
  then have "parseEbirdDate s = Some (y @ [dash] @ mm @ [dash] @ padStart 2 zero d)"
    using mm by (rule parseEbirdDate_tokens)
  with s mm d y show ?thesis
    by blast
qed

lemma mapRow_Some:
  assumes "9 \<le> length columns" and "parseEbirdDate (columns ! 8) = Some d" and "d \<noteq> []"
    and "\<forall>f \<in> set columns. quote \<notin> set f"
  shows "mapRow columns = Some \<lparr>date = d, sciName = columns ! 4, common = columns ! 3,
    location = columns ! 6, region = columns ! 7\<rparr>"
proof -
  have "columns ! 6 \<in> set columns"
    using assms(1) by simp
  then have "filter (\<lambda>c. c \<noteq> quote) (columns ! 6) = columns ! 6"
    using assms(4) by (auto simp: filter_id_conv)
  then show ?thesis
    using assms by (simp add: mapRow_def)
qed

lemma tokenize_Nil: "tokenize [] = [[]]"
  by (simp add: tokenize_def)

lemma lineObservation_well_formed:
  assumes "9 \<le> length (tokenize (trim r))" and "isEbirdDate (tokenize (trim r) ! 8)"
  shows "\<exists>ob. lineObservation r = Some ob \<and>
    parseEbirdDate (tokenize (trim r) ! 8) = Some (date ob) \<and>
    (\<exists>d m y mm. tokenize (trim r) ! 8 = d @ space # m @ space # y \<and> map_of months m = Some mm \<and>
       date ob = y @ [dash] @ mm @ [dash] @ padStart 2 zero d) \<and>
    common ob = tokenize (trim r) ! 3 \<and> sciName ob = tokenize (trim r) ! 4 \<and>
    location ob = tokenize (trim r) ! 6 \<and> region ob = tokenize (trim r) ! 7"
proof -
  define c where "c = tokenize (trim r)"
  have ne: "trim r \<noteq> []"
    using assms(1) by (auto simp: tokenize_Nil)
  from isEbirdDate_parse [OF assms(2)] obtain d m y mm
    where s: "c ! 8 = d @ space # m @ space # y" and mm: "map_of months m = Some mm"
      and p: "parseEbirdDate (c ! 8) = Some (y @ [dash] @ mm @ [dash] @ padStart 2 zero d)"
    unfolding c_def by blast
  have "mapRow c = Some \<lparr>date = y @ [dash] @ mm @ [dash] @ padStart 2 zero d,
      sciName = c ! 4, common = c ! 3, location = c ! 6, region = c ! 7\<rparr>"
    using assms(1) p tokenize_no_quote unfolding c_def by (intro mapRow_Some) auto
  then show ?thesis
    using ne s mm p unfolding c_def lineObservation_def by (simp add: Let_def) blast
qed

lemma map_filter_all_Some:
  "\<forall>r \<in> set rows. \<exists>ob. f r = Some ob \<and> R r ob \<Longrightarrow>
     list_all2 R rows (List.map_filter f rows)"
  by (induction rows) (auto simp: List.map_filter_simps)

text \<open>
  Claim C4. When the input is a header line followed by rows that each tokenize to at
  least 9 columns with a date of the form \<open>D Mon YYYY\<close> in column 8, and by nothing else
  but blank lines (the empty line that a final line break leaves, or none at all),
  \<open>parseCSV\<close> returns as many observations as there are rows: the observations collected
  row by row, in some order. The observation collected for a row takes \<open>common\<close> from column 3, \<open>sciName\<close>
  from column 4, \<open>location\<close> from column 6, \<open>region\<close> from column 7, and \<open>date\<close> is the
  normalized column 8, \<open>YYYY-MM-DD\<close> with the day padded to two digits.
\<close>

theorem well_formed_rows_round_trip:
  assumes "splitOn newline csvContent = header # rows @ blank"
    and "\<forall>r \<in> set rows. 9 \<le> length (tokenize (trim r)) \<and> isEbirdDate (tokenize (trim r) ! 8)"
    and "\<forall>l \<in> set blank. trim l = []"
  shows "length (parseCSV otherFormats engineOrder csvContent) = length rows \<and>
    mset (parseCSV otherFormats engineOrder csvContent) = mset (collectRows csvContent) \<and>
    list_all2
      (\<lambda>r ob.
         parseEbirdDate (tokenize (trim r) ! 8) = Some (date ob) \<and>
         (\<exists>d m y mm. tokenize (trim r) ! 8 = d @ space # m @ space # y \<and> map_of months m = Some mm \<and>
            date ob = y @ [dash] @ mm @ [dash] @ padStart 2 zero d) \<and>
         common ob = tokenize (trim r) ! 3 \<and> sciName ob = tokenize (trim r) ! 4 \<and>
         location ob = tokenize (trim r) ! 6 \<and> region ob = tokenize (trim r) ! 7)
      rows (collectRows csvContent)"
proof -
  have "List.map_filter lineObservation blank = []"
    using assms(3) by (simp add: List.map_filter_def lineObservation_def filter_empty_conv)
  then have c: "collectRows csvContent = List.map_filter lineObservation rows"
    using assms(1) by (simp add: collectRows_map_filter List.map_filter_def)
  have l: "list_all2
      (\<lambda>r ob.
         parseEbirdDate (tokenize (trim r) ! 8) = Some (date ob) \<and>
         (\<exists>d m y mm. tokenize (trim r) ! 8 = d @ space # m @ space # y \<and> map_of months m = Some mm \<and>
            date ob = y @ [dash] @ mm @ [dash] @ padStart 2 zero d) \<and>
         common ob = tokenize (trim r) ! 3 \<and> sciName ob = tokenize (trim r) ! 4 \<and>
         location ob = tokenize (trim r) ! 6 \<and> region ob = tokenize (trim r) ! 7)
      rows (collectRows csvContent)"
    unfolding c
    by (rule map_filter_all_Some) (use assms(2) lineObservation_well_formed in blast)
  then have "length rows = length (collectRows csvContent)"
    by (rule list_all2_lengthD)
  then have "length (parseCSV otherFormats engineOrder csvContent) = length rows"
    by (simp add: parseCSV_def length_arraySort)
  moreover have "mset (parseCSV otherFormats engineOrder csvContent) = mset (collectRows csvContent)"
    by (simp add: parseCSV_def mset_arraySort)
  ultimately show ?thesis
    using l by blast
qed

text \<open>
  An export of a header and two rows, the first with a quoted location, ending in a line
  break.
\<close>

theorem well_formed_rows_round_trip_witness:
  \<open>splitOn newline (js ''Row,Code,Order,Common,Sci,Sub,Loc,SP,Date\<newline>1,amerob,100,American Robin,Turdus migratorius,,"Central Park, NY",US-NY,15 Dec 2023\<newline>2,houwre,200,House Wren,Troglodytes aedon,,Back Yard,US-MA,5 Jan 2024\<newline>'') =
     [js ''Row,Code,Order,Common,Sci,Sub,Loc,SP,Date'',
      js ''1,amerob,100,American Robin,Turdus migratorius,,"Central Park, NY",US-NY,15 Dec 2023'',
      js ''2,houwre,200,House Wren,Troglodytes aedon,,Back Yard,US-MA,5 Jan 2024'', []] \<and>
   isEbirdDate (js ''15 Dec 2023'') \<and> isEbirdDate (js ''5 Jan 2024'') \<and>
   length (parseCSV noOtherFormats inputOrder (js ''Row,Code,Order,Common,Sci,Sub,Loc,SP,Date\<newline>1,amerob,100,American Robin,Turdus migratorius,,"Central Park, NY",US-NY,15 Dec 2023\<newline>2,houwre,200,House Wren,Troglodytes aedon,,Back Yard,US-MA,5 Jan 2024\<newline>'')) = 2 \<and>
   collectRows (js ''Row,Code,Order,Common,Sci,Sub,Loc,SP,Date\<newline>1,amerob,100,American Robin,Turdus migratorius,,"Central Park, NY",US-NY,15 Dec 2023\<newline>2,houwre,200,House Wren,Troglodytes aedon,,Back Yard,US-MA,5 Jan 2024\<newline>'') =
     [\<lparr>date = js ''2023-12-15'', sciName = js ''Turdus migratorius'', common = js ''American Robin'',
       location = js ''Central Park, NY'', region = js ''US-NY''\<rparr>,
      \<lparr>date = js ''2024-01-05'', sciName = js ''Troglodytes aedon'', common = js ''House Wren'',
       location = js ''Back Yard'', region = js ''US-MA''\<rparr>]\<close>
proof -
  define h where "h = js ''Row,Code,Order,Common,Sci,Sub,Loc,SP,Date''"
  define r1 where \<open>r1 = js ''1,amerob,100,American Robin,Turdus migratorius,,"Central Park, NY",US-NY,15 Dec 2023''\<close>
  define r2 where "r2 = js ''2,houwre,200,House Wren,Troglodytes aedon,,Back Yard,US-MA,5 Jan 2024''"
  define csv where \<open>csv = js ''Row,Code,Order,Common,Sci,Sub,Loc,SP,Date\<newline>1,amerob,100,American Robin,Turdus migratorius,,"Central Park, NY",US-NY,15 Dec 2023\<newline>2,houwre,200,House Wren,Troglodytes aedon,,Back Yard,US-MA,5 Jan 2024\<newline>''\<close>
  have sp: "splitOn newline csv = h # [r1, r2] @ [[]]"
    unfolding csv_def h_def r1_def r2_def by code_simp
  have t1: "tokenize (trim r1) = [js ''1'', js ''amerob'', js ''100'', js ''American Robin'',
      js ''Turdus migratorius'', [], js ''Central Park, NY'', js ''US-NY'', js ''15 Dec 2023'']"
    unfolding r1_def by code_simp
  have t2: "tokenize (trim r2) = [js ''2'', js ''houwre'', js ''200'', js ''House Wren'',
      js ''Troglodytes aedon'', [], js ''Back Yard'', js ''US-MA'', js ''5 Jan 2024'']"
    unfolding r2_def by code_simp
  have d1: "isEbirdDate (js ''15 Dec 2023'')"
    by code_simp
  have d2: "isEbirdDate (js ''5 Jan 2024'')"
    by code_simp
  have wf: "\<forall>r \<in> set [r1, r2]. 9 \<le> length (tokenize (trim r)) \<and> isEbirdDate (tokenize (trim r) ! 8)"
    using d1 d2 by (simp add: t1 t2)
  have c: "collectRows csv =
     [\<lparr>date = js ''2023-12-15'', sciName = js ''Turdus migratorius'', common = js ''American Robin'',
       location = js ''Central Park, NY'', region = js ''US-NY''\<rparr>,
      \<lparr>date = js ''2024-01-05'', sciName = js ''Troglodytes aedon'', common = js ''House Wren'',
       location = js ''Back Yard'', region = js ''US-MA''\<rparr>]"
    unfolding csv_def by code_simp
  have "length (parseCSV noOtherFormats inputOrder csv) = 2"
    using well_formed_rows_round_trip [OF sp wf, of noOtherFormats inputOrder] by simp
  then show ?thesis
    using sp d1 d2 c unfolding csv_def h_def r1_def r2_def by simp
qed

text \<open>
  Claim C6. A row that tokenizes to fewer than 9 columns is dropped without an error,
  whatever its fields hold: the field mapper pushes nothing for it, so the line
  contributes nothing; the output is the same as for an input from which every such row
  has been removed; and every observation of the output comes from a line after the first
  that has at least 9 columns.
\<close>

theorem short_rows_dropped:
  "(length columns < 9 \<longrightarrow> mapRow columns = None) \<and>
   (length (tokenize (trim l)) < 9 \<longrightarrow> lineObservation l = None) \<and>
   (drop 1 (splitOn newline b) =
      filter (\<lambda>l. 9 \<le> length (tokenize (trim l))) (drop 1 (splitOn newline a)) \<longrightarrow>
    parseCSV otherFormats engineOrder b = parseCSV otherFormats engineOrder a) \<and>
   (\<forall>ob \<in> set (parseCSV otherFormats engineOrder a).
      \<exists>l \<in> set (drop 1 (splitOn newline a)).
        9 \<le> length (tokenize (trim l)) \<and> mapRow (tokenize (trim l)) = Some ob)"
proof -
  have 1: "mapRow columns = None" if "length columns < 9" for columns
    using that by (simp add: mapRow_def)
  have 2: "lineObservation l = None" if "length (tokenize (trim l)) < 9" for l
    using that 1 by (simp add: lineObservation_def Let_def)
  have 3: "parseCSV otherFormats engineOrder b = parseCSV otherFormats engineOrder a"
    if "drop 1 (splitOn newline b) =
      filter (\<lambda>l. 9 \<le> length (tokenize (trim l))) (drop 1 (splitOn newline a))"
  proof -
    have "collectRows b = collectRows a"
      unfolding collectRows_map_filter that
      by (rule map_filter_filter) (use 2 in auto)
    then show ?thesis
      by (simp add: parseCSV_def)
  qed
  have 4: "\<exists>l \<in> set (drop 1 (splitOn newline a)).
        9 \<le> length (tokenize (trim l)) \<and> mapRow (tokenize (trim l)) = Some ob"
    if "ob \<in> set (parseCSV otherFormats engineOrder a)" for ob
  proof -
    from that obtain l where l: "l \<in> set (drop 1 (splitOn newline a))"
      and o: "lineObservation l = Some ob"
      unfolding set_parseCSV by blast
    from o have m: "mapRow (tokenize (trim l)) = Some ob"
      by (auto simp: lineObservation_def Let_def split: if_splits)
    then have "9 \<le> length (tokenize (trim l))"
      by (auto simp: mapRow_def split: if_splits)
    with l m show ?thesis
      by blast
  qed
  show ?thesis
    using 1 2 3 4 by blast
qed

text \<open>A row of 8 columns, with a date that parses in its last column, between a header and a full row.\<close>

theorem short_rows_dropped_witness:
  "length (tokenize (trim (js ''1,c,t,Robin,Turdus,Park,US-NY,5 Jan 2024''))) = 8 \<and>
   lineObservation (js ''1,c,t,Robin,Turdus,Park,US-NY,5 Jan 2024'') = None \<and>
   parseCSV noOtherFormats inputOrder (js ''h\<newline>2,c,t,Wren,Trog,s,Yard,US-MA,1 Jan 2023'') =
   parseCSV noOtherFormats inputOrder (js ''h\<newline>1,c,t,Robin,Turdus,Park,US-NY,5 Jan 2024\<newline>2,c,t,Wren,Trog,s,Yard,US-MA,1 Jan 2023'') \<and>
   parseCSV noOtherFormats inputOrder (js ''h\<newline>1,c,t,Robin,Turdus,Park,US-NY,5 Jan 2024\<newline>2,c,t,Wren,Trog,s,Yard,US-MA,1 Jan 2023'') =
     [\<lparr>date = js ''2023-01-01'', sciName = js ''Trog'', common = js ''Wren'',
       location = js ''Yard'', region = js ''US-MA''\<rparr>]"
proof -
  define short where "short = js ''1,c,t,Robin,Turdus,Park,US-NY,5 Jan 2024''"
  define a where "a = js ''h\<newline>1,c,t,Robin,Turdus,Park,US-NY,5 Jan 2024\<newline>2,c,t,Wren,Trog,s,Yard,US-MA,1 Jan 2023''"
  define b where "b = js ''h\<newline>2,c,t,Wren,Trog,s,Yard,US-MA,1 Jan 2023''"
  note T = short_rows_dropped [of _ short b a noOtherFormats inputOrder]
  have len: "length (tokenize (trim short)) = 8"
    unfolding short_def by code_simp
  have 1: "lineObservation short = None"
    using T len by simp
  have "drop 1 (splitOn newline b) =
      filter (\<lambda>l. 9 \<le> length (tokenize (trim l))) (drop 1 (splitOn newline a))"
    unfolding a_def b_def by code_simp
  then have 2: "parseCSV noOtherFormats inputOrder b = parseCSV noOtherFormats inputOrder a"
    using T by blast
  have "collectRows b =
     [\<lparr>date = js ''2023-01-01'', sciName = js ''Trog'', common = js ''Wren'',
       location = js ''Yard'', region = js ''US-MA''\<rparr>]"
    unfolding b_def by code_simp
  then have 3: "parseCSV noOtherFormats inputOrder b =
     [\<lparr>date = js ''2023-01-01'', sciName = js ''Trog'', common = js ''Wren'',
       location = js ''Yard'', region = js ''US-MA''\<rparr>]"
    by (rule parseCSV_one)
  show ?thesis
    using len 1 2 3 unfolding short_def a_def b_def by simp
qed

text \<open>
  Claim C8. The first line is discarded whatever it holds; a line that is empty after
  trimming contributes nothing, and the output is the same as for an input without such
  lines; the empty input, an input of one line, and an input of one line followed by a
  line break give the empty sequence.
\<close>

theorem header_and_blank_lines:
  "(newline \<notin> set h \<and> newline \<notin> set h' \<longrightarrow>
      parseCSV otherFormats engineOrder (h @ newline # rest) = parseCSV otherFormats engineOrder (h' @ newline # rest)) \<and>
   (trim l = [] \<longrightarrow> lineObservation l = None) \<and>
   (drop 1 (splitOn newline b) = filter (\<lambda>l. trim l \<noteq> []) (drop 1 (splitOn newline a)) \<longrightarrow>
      parseCSV otherFormats engineOrder b = parseCSV otherFormats engineOrder a) \<and>
   parseCSV otherFormats engineOrder [] = [] \<and>
   (newline \<notin> set h \<longrightarrow> parseCSV otherFormats engineOrder h = [] \<and> parseCSV otherFormats engineOrder (h @ [newline]) = [])"
proof -
  have 1: "parseCSV otherFormats engineOrder (h @ newline # rest) = parseCSV otherFormats engineOrder (h' @ newline # rest)"
    if "newline \<notin> set h" "newline \<notin> set h'"
    using that by (simp add: parseCSV_def collectRows_def splitOn_append)
  have 2: "lineObservation l = None" if "trim l = []" for l
    using that by (simp add: lineObservation_def)
  have 3: "parseCSV otherFormats engineOrder b = parseCSV otherFormats engineOrder a"
    if "drop 1 (splitOn newline b) = filter (\<lambda>l. trim l \<noteq> []) (drop 1 (splitOn newline a))"
  proof -
    have "collectRows b = collectRows a"
      unfolding collectRows_map_filter that
      by (rule map_filter_filter) (use 2 in auto)
    then show ?thesis
      by (simp add: parseCSV_def)
  qed
  have 4: "parseCSV otherFormats engineOrder [] = []"
    by (simp add: parseCSV_def collectRows_def arraySort_def consistentOn_def)
  have 5: "parseCSV otherFormats engineOrder h = [] \<and> parseCSV otherFormats engineOrder (h @ [newline]) = []"
    if "newline \<notin> set h"
    using that
    by (simp add: parseCSV_def collectRows_def arraySort_def consistentOn_def splitOn_no_sep splitOn_append)
  show ?thesis
    using 1 2 3 4 5 by blast
qed

text \<open>
  A first line that is itself a full data row, an input with an empty line, a line of
  spaces and a final line break, and an input that is only a header.
\<close>

theorem header_and_blank_lines_witness:
  "newline \<notin> set (js ''Row,Date'') \<and>
   newline \<notin> set (js ''1,c,t,Robin,Turdus,s,Park,US-NY,5 Jan 2024'') \<and>
   parseCSV noOtherFormats inputOrder (js ''1,c,t,Robin,Turdus,s,Park,US-NY,5 Jan 2024\<newline>2,c,t,Wren,Trog,s,Yard,US-MA,1 Jan 2023'') =
     [\<lparr>date = js ''2023-01-01'', sciName = js ''Trog'', common = js ''Wren'',
       location = js ''Yard'', region = js ''US-MA''\<rparr>] \<and>
   trim (js ''  '') = [] \<and>
   lineObservation (js ''  '') = None \<and>
   parseCSV noOtherFormats inputOrder (js ''Row,Date\<newline>\<newline>  \<newline>2,c,t,Wren,Trog,s,Yard,US-MA,1 Jan 2023\<newline>'') =
     [\<lparr>date = js ''2023-01-01'', sciName = js ''Trog'', common = js ''Wren'',
       location = js ''Yard'', region = js ''US-MA''\<rparr>] \<and>
   parseCSV noOtherFormats inputOrder (js ''Row,Date'') = [] \<and>
   parseCSV noOtherFormats inputOrder (js ''Row,Date'' @ [newline]) = []"
proof -
  define h where "h = js ''Row,Date''"
  define h' where "h' = js ''1,c,t,Robin,Turdus,s,Park,US-NY,5 Jan 2024''"
  define rest where "rest = js ''2,c,t,Wren,Trog,s,Yard,US-MA,1 Jan 2023''"
  define a where "a = js ''Row,Date\<newline>\<newline>  \<newline>2,c,t,Wren,Trog,s,Yard,US-MA,1 Jan 2023\<newline>''"
  define ob where "ob = \<lparr>date = js ''2023-01-01'', sciName = js ''Trog'', common = js ''Wren'',
       location = js ''Yard'', region = js ''US-MA''\<rparr>"
  note T = header_and_blank_lines [of h h' noOtherFormats inputOrder rest "js ''  ''" "h @ newline # rest" a]
  have n: "newline \<notin> set h" "newline \<notin> set h'"
    unfolding h_def h'_def by code_simp+
  have "collectRows (h @ newline # rest) = [ob]"
    unfolding h_def rest_def ob_def by code_simp
  then have p: "parseCSV noOtherFormats inputOrder (h @ newline # rest) = [ob]"
    by (rule parseCSV_one)
  have 1: "parseCSV noOtherFormats inputOrder (h' @ newline # rest) = [ob]"
    using T n p by simp
  have e: "h' @ newline # rest = js ''1,c,t,Robin,Turdus,s,Park,US-NY,5 Jan 2024\<newline>2,c,t,Wren,Trog,s,Yard,US-MA,1 Jan 2023''"
    unfolding h'_def rest_def by code_simp
  have t: "trim (js ''  '') = []"
    by code_simp
  have 2: "lineObservation (js ''  '') = None"
    using T t by blast
  have "drop 1 (splitOn newline (h @ newline # rest)) =
      filter (\<lambda>l. trim l \<noteq> []) (drop 1 (splitOn newline a))"
    unfolding h_def rest_def a_def by code_simp
  then have 3: "parseCSV noOtherFormats inputOrder a = [ob]"
    using T p by simp
  have 4: "parseCSV noOtherFormats inputOrder h = [] \<and> parseCSV noOtherFormats inputOrder (h @ [newline]) = []"
    using T n by blast
  show ?thesis
    using n 1 e t 2 3 4 unfolding h_def h'_def a_def ob_def by simp
qed

section \<open>Reading the previous export and merging\<close>

text \<open>
  Claim C7. Reading the previous export never fails: \<open>getExistingProfile\<close> always
  returns a value; when the file cannot be read, or its text is not JSON, that value is the
  empty object; and the import goes on to build the new export, whose profile then holds
  \<open>lastSync\<close> alone.
\<close>

theorem getExistingProfile_never_fails:
  "(\<exists>p. getExistingProfile JSON_parse file = Inr p) \<and>
   (file = Inl e \<longrightarrow> getExistingProfile JSON_parse file = Inr (JObj [])) \<and>
   (file = Inr text \<and> JSON_parse text = Inl e \<longrightarrow> getExistingProfile JSON_parse file = Inr (JObj [])) \<and>
   (\<exists>ex. fetchEbirdLifeList otherFormats engineOrder JSON_parse csvContent file lastSyncNow exportedAtNow = Inr ex) \<and>
   ((file = Inl e \<or> file = Inr text \<and> JSON_parse text = Inl e) \<longrightarrow>
      fetchEbirdLifeList otherFormats engineOrder JSON_parse csvContent file lastSyncNow exportedAtNow =
        Inr \<lparr>profile = [(js ''lastSync'', JStr lastSyncNow)],
             observations = parseCSV otherFormats engineOrder csvContent,
             exportedAt = exportedAtNow\<rparr>)"
proof -
  have 1: "\<exists>p. getExistingProfile JSON_parse file = Inr p"
    by (simp add: getExistingProfile_def split: sum.splits)
  have 2: "getExistingProfile JSON_parse file = Inr (JObj [])" if "file = Inl e"
    using that by (simp add: getExistingProfile_def readProfile_def)
  have 3: "getExistingProfile JSON_parse file = Inr (JObj [])"
    if "file = Inr text \<and> JSON_parse text = Inl e"
    using that by (simp add: getExistingProfile_def readProfile_def)
  have 4: "\<exists>ex. fetchEbirdLifeList otherFormats engineOrder JSON_parse csvContent file lastSyncNow exportedAtNow = Inr ex"
    using 1 by (auto simp: fetchEbirdLifeList_def Let_def)
  have 5: "fetchEbirdLifeList otherFormats engineOrder JSON_parse csvContent file lastSyncNow exportedAtNow =
        Inr \<lparr>profile = [(js ''lastSync'', JStr lastSyncNow)],
             observations = parseCSV otherFormats engineOrder csvContent,
             exportedAt = exportedAtNow\<rparr>"
    if "file = Inl e \<or> file = Inr text \<and> JSON_parse text = Inl e"
    using that 2 3 by (auto simp: fetchEbirdLifeList_def Let_def dataJson_def)
  show ?thesis
    using 1 2 3 4 5 by blast
qed

text \<open>A missing file, and a file whose text is not JSON.\<close>

theorem getExistingProfile_never_fails_witness:
  "getExistingProfile (\<lambda>t. Inl SyntaxError) (Inl FileError) = Inr (JObj []) \<and>
   getExistingProfile (\<lambda>t. Inl SyntaxError) (Inr (js ''{oops'')) = Inr (JObj []) \<and>
   fetchEbirdLifeList noOtherFormats inputOrder (\<lambda>t. Inl SyntaxError) (js ''Row,Date'') (Inl FileError)
       (js ''2024-01-05T07:00:00.000Z'') (js ''2024-01-05T07:00:00.001Z'') =
     Inr \<lparr>profile = [(js ''lastSync'', JStr (js ''2024-01-05T07:00:00.000Z''))],
          observations = [],
          exportedAt = js ''2024-01-05T07:00:00.001Z''\<rparr>"
proof -
  note T1 = getExistingProfile_never_fails
    [of "\<lambda>t. Inl SyntaxError" "Inl FileError" FileError "[]" noOtherFormats inputOrder "js ''Row,Date''"
        "js ''2024-01-05T07:00:00.000Z''" "js ''2024-01-05T07:00:00.001Z''"]
  note T2 = getExistingProfile_never_fails
    [of "\<lambda>t. Inl SyntaxError" "Inr (js ''{oops'')" SyntaxError "js ''{oops''"]
  have 1: "getExistingProfile (\<lambda>t. Inl SyntaxError) (Inl FileError) = Inr (JObj [])"
    using T1 by blast
  have 2: "getExistingProfile (\<lambda>t. Inl SyntaxError) (Inr (js ''{oops'')) = Inr (JObj [])"
    using T2 by blast
  have p: "parseCSV noOtherFormats inputOrder (js ''Row,Date'') = []"
    by code_simp
  have 3: "fetchEbirdLifeList noOtherFormats inputOrder (\<lambda>t. Inl SyntaxError) (js ''Row,Date'') (Inl FileError)
       (js ''2024-01-05T07:00:00.000Z'') (js ''2024-01-05T07:00:00.001Z'') =
     Inr \<lparr>profile = [(js ''lastSync'', JStr (js ''2024-01-05T07:00:00.000Z''))],
          observations = parseCSV noOtherFormats inputOrder (js ''Row,Date''),
          exportedAt = js ''2024-01-05T07:00:00.001Z''\<rparr>"
    using T1 by blast
  show ?thesis
    using 1 2 3 by (simp add: p)
qed

text \<open>
  Claim C3. The merge keeps every field of the previous profile object and sets
  \<open>lastSync\<close> to the current time: every key other than \<open>lastSync\<close> has in the new
  profile the value it has in the old one, \<open>lastSync\<close> has the new time, and the keys of
  the new profile are those of the old one and \<open>lastSync\<close>. The same holds from end to end
  when the file parses to an object whose \<open>profile\<close> is an object.
\<close>

theorem merge_preserves_profile:
  "(key \<noteq> js ''lastSync'' \<longrightarrow>
      map_of (profile (dataJson (JObj props) obs lastSyncNow exportedAtNow)) key = map_of props key) \<and>
   map_of (profile (dataJson (JObj props) obs lastSyncNow exportedAtNow)) (js ''lastSync'') =
      Some (JStr lastSyncNow) \<and>
   fst ` set (profile (dataJson (JObj props) obs lastSyncNow exportedAtNow)) =
      insert (js ''lastSync'') (fst ` set props) \<and>
   (file = Inr text \<and> JSON_parse text = Inr (JObj existing) \<and>
    map_of existing (js ''profile'') = Some (JObj props) \<and> key \<noteq> js ''lastSync'' \<longrightarrow>
      (\<exists>ex. fetchEbirdLifeList otherFormats engineOrder JSON_parse csvContent file lastSyncNow exportedAtNow = Inr ex \<and>
            map_of (profile ex) key = map_of props key \<and>
            map_of (profile ex) (js ''lastSync'') = Some (JStr lastSyncNow)))"
proof -
  have 1: "map_of (profile (dataJson (JObj props) obs lastSyncNow exportedAtNow)) key = map_of props key"
    if "key \<noteq> js ''lastSync''" for obs
    using that by (simp add: dataJson_def AList.update_conv')
  have 2: "map_of (profile (dataJson (JObj props) obs lastSyncNow exportedAtNow)) (js ''lastSync'') =
      Some (JStr lastSyncNow)" for obs
    by (simp add: dataJson_def AList.update_conv')
  have 3: "fst ` set (profile (dataJson (JObj props) obs lastSyncNow exportedAtNow)) =
      insert (js ''lastSync'') (fst ` set props)"
    by (simp add: dataJson_def AList.dom_update)
  have 4: "\<exists>ex. fetchEbirdLifeList otherFormats engineOrder JSON_parse csvContent file lastSyncNow exportedAtNow = Inr ex \<and>
            map_of (profile ex) key = map_of props key \<and>
            map_of (profile ex) (js ''lastSync'') = Some (JStr lastSyncNow)"
    if h: "file = Inr text \<and> JSON_parse text = Inr (JObj existing) \<and>
      map_of existing (js ''profile'') = Some (JObj props) \<and> key \<noteq> js ''lastSync''"
  proof -
    from h have "getExistingProfile JSON_parse file = Inr (JObj props)"
      by (simp add: getExistingProfile_def readProfile_def)
    then have "fetchEbirdLifeList otherFormats engineOrder JSON_parse csvContent file lastSyncNow exportedAtNow =
        Inr (dataJson (JObj props) (parseCSV otherFormats engineOrder csvContent) lastSyncNow exportedAtNow)"
      by (simp add: fetchEbirdLifeList_def Let_def)
    with 1 2 h show ?thesis
      by simp
  qed
  show ?thesis
    using 1 2 3 4 by blast
qed

text \<open>A previous profile with a name, an older \<open>lastSync\<close> and a location.\<close>

theorem merge_preserves_profile_witness:
  "js ''name'' \<noteq> js ''lastSync'' \<and>
   map_of (profile (dataJson
       (JObj [(js ''name'', JStr (js ''Ada'')), (js ''lastSync'', JStr (js ''2023-12-31T07:00:00.000Z'')),
              (js ''location'', JStr (js ''Boston, MA''))])
       [] (js ''2024-01-05T07:00:00.000Z'') (js ''2024-01-05T07:00:00.001Z''))) (js ''name'') =
     Some (JStr (js ''Ada'')) \<and>
   profile (dataJson
       (JObj [(js ''name'', JStr (js ''Ada'')), (js ''lastSync'', JStr (js ''2023-12-31T07:00:00.000Z'')),
              (js ''location'', JStr (js ''Boston, MA''))])
       [] (js ''2024-01-05T07:00:00.000Z'') (js ''2024-01-05T07:00:00.001Z'')) =
     [(js ''name'', JStr (js ''Ada'')), (js ''lastSync'', JStr (js ''2024-01-05T07:00:00.000Z'')),
      (js ''location'', JStr (js ''Boston, MA''))] \<and>
   map_of (profile (projr (fetchEbirdLifeList noOtherFormats inputOrder
       (\<lambda>t. Inr (JObj [(js ''profile'',
          JObj [(js ''name'', JStr (js ''Ada'')), (js ''lastSync'', JStr (js ''2023-12-31T07:00:00.000Z'')),
                (js ''location'', JStr (js ''Boston, MA''))])]))
       (js ''Row,Date'') (Inr (js ''{}'')) (js ''2024-01-05T07:00:00.000Z'')
       (js ''2024-01-05T07:00:00.001Z'')))) (js ''name'') = Some (JStr (js ''Ada''))"
proof -
  define props where "props = [(js ''name'', JStr (js ''Ada'')),
    (js ''lastSync'', JStr (js ''2023-12-31T07:00:00.000Z'')), (js ''location'', JStr (js ''Boston, MA''))]"
  define parse :: "jsstring \<Rightarrow> error + json" where "parse = (\<lambda>t. Inr (JObj [(js ''profile'', JObj props)]))"
  note T = merge_preserves_profile
    [of "js ''name''" props "[]" "js ''2024-01-05T07:00:00.000Z''" "js ''2024-01-05T07:00:00.001Z''"
        "Inr (js ''{}'')" "js ''{}''" parse "[(js ''profile'', JObj props)]" noOtherFormats inputOrder "js ''Row,Date''"]
  have n: "js ''name'' \<noteq> js ''lastSync''"
    by code_simp
  have m: "map_of props (js ''name'') = Some (JStr (js ''Ada''))"
    unfolding props_def by (simp add: js_def)
  have 1: "map_of (profile (dataJson (JObj props) [] (js ''2024-01-05T07:00:00.000Z'')
      (js ''2024-01-05T07:00:00.001Z''))) (js ''name'') = Some (JStr (js ''Ada''))"
    using T n m by simp
  have 2: "profile (dataJson (JObj props) [] (js ''2024-01-05T07:00:00.000Z'')
      (js ''2024-01-05T07:00:00.001Z'')) =
     [(js ''name'', JStr (js ''Ada'')), (js ''lastSync'', JStr (js ''2024-01-05T07:00:00.000Z'')),
      (js ''location'', JStr (js ''Boston, MA''))]"
    unfolding props_def by (simp add: dataJson_def js_def)
  have h: "parse (js ''{}'') = Inr (JObj [(js ''profile'', JObj props)])"
    "map_of [(js ''profile'', JObj props)] (js ''profile'') = Some (JObj props)"
    by (simp_all add: parse_def)
  from T n h obtain ex where
    ex: "fetchEbirdLifeList noOtherFormats inputOrder parse (js ''Row,Date'') (Inr (js ''{}''))
           (js ''2024-01-05T07:00:00.000Z'') (js ''2024-01-05T07:00:00.001Z'') = Inr ex"
    and k: "map_of (profile ex) (js ''name'') = map_of props (js ''name'')"
    by blast
  have 3: "map_of (profile (projr (fetchEbirdLifeList noOtherFormats inputOrder parse (js ''Row,Date'')
      (Inr (js ''{}'')) (js ''2024-01-05T07:00:00.000Z'') (js ''2024-01-05T07:00:00.001Z''))))
      (js ''name'') = Some (JStr (js ''Ada''))"
    using ex k m by simp
  show ?thesis
    using n 1 2 3 unfolding props_def parse_def by simp
qed

section \<open>The order of the output\<close>

subsection \<open>Days of the calendar\<close>

lemma div_next:
  fixes a n :: int
  assumes "0 < n"
  shows "(a + 1) div n = a div n + (if (a + 1) mod n = 0 then 1 else 0)"
proof -
  define q r where "q = a div n" and "r = a mod n"
  have a: "a = n * q + r" and r: "0 \<le> r" "r < n"
    using assms by (simp_all add: q_def r_def)
  show ?thesis
  proof (cases "r + 1 < n")
    case True
    have e: "a + 1 = n * q + (r + 1)"
      using a by simp
    have "(a + 1) div n = q"
      using e r True by (intro int_div_pos_eq [of "a + 1" n q "r + 1"]) simp_all
    moreover have "(a + 1) mod n = r + 1"
      using e r True by (intro int_mod_pos_eq [of "a + 1" n q "r + 1"]) simp_all
    ultimately show ?thesis
      using r by (simp add: q_def)
  next
    case False
    with r have rn: "r + 1 = n"
      by simp
    have e: "a + 1 = n * (q + 1) + 0"
      using a rn by (simp add: algebra_simps)
    have "(a + 1) div n = q + 1"
      using e assms by (intro int_div_pos_eq [of "a + 1" n "q + 1" 0]) simp_all
    moreover have "(a + 1) mod n = 0"
      using e assms by (intro int_mod_pos_eq [of "a + 1" n "q + 1" 0]) simp_all
    ultimately show ?thesis
      by (simp add: q_def)
  qed
qed

lemma mod_shift:
  fixes y k n :: int
  assumes "k mod n = 0"
  shows "(y - k) mod n = y mod n"
proof -
  have "(y - k) mod n = (y - k mod n) mod n"
    by (rule mod_diff_right_eq [symmetric])
  then show ?thesis
    using assms by simp
qed

lemma mod_coarser:
  fixes y m n :: int
  assumes "n dvd m" and "y mod m = 0"
  shows "y mod n = 0"
proof -
  have "y mod m mod n = y mod n"
    using assms(1) by (rule mod_mod_cancel)
  with assms(2) show ?thesis
    by simp
qed

lemma div_year_next:
  fixes y k n :: int
  assumes "0 < n" and "(k - 1) mod n = 0"
  shows "(y + 1 - k) div n = (y - k) div n + (if y mod n = 0 then 1 else 0)"
proof -
  have e: "y + 1 - k = (y - k) + 1" "y - k + 1 = y - (k - 1)"
    by simp_all
  have "(y - k + 1) mod n = y mod n"
    unfolding e(2) using assms(2) by (rule mod_shift)
  then show ?thesis
    unfolding e(1) using div_next [OF assms(1), of "y - k"] by simp
qed

lemma DayFromYear_next:
  "DayFromYear (y + 1) = DayFromYear y + (if InLeapYear y then 366 else 365)"
proof -
  define A B C where "A = (y - 1969) div 4" and "B = (y - 1901) div 100" and "C = (y - 1601) div 400"
  define p4 p100 p400 where "p4 \<longleftrightarrow> y mod 4 = 0" and "p100 \<longleftrightarrow> y mod 100 = 0"
    and "p400 \<longleftrightarrow> y mod 400 = 0"
  have s4: "(y + 1 - 1969) div 4 = A + (if p4 then 1 else 0)"
    unfolding A_def p4_def by (rule div_year_next) simp_all
  have s100: "(y + 1 - 1901) div 100 = B + (if p100 then 1 else 0)"
    unfolding B_def p100_def by (rule div_year_next) simp_all
  have s400: "(y + 1 - 1601) div 400 = C + (if p400 then 1 else 0)"
    unfolding C_def p400_def by (rule div_year_next) simp_all
  have a: "p400 \<Longrightarrow> p100"
    unfolding p400_def p100_def by (rule mod_coarser [of 100 400]) simp_all
  have b: "p100 \<Longrightarrow> p4"
    unfolding p100_def p4_def by (rule mod_coarser [of 4 100]) simp_all
  have leap: "InLeapYear y \<longleftrightarrow> p4 \<and> (\<not> p100 \<or> p400)"
    by (simp only: InLeapYear_def p4_def p100_def p400_def)
  have next_year: "DayFromYear (y + 1) =
      365 * (y + 1 - 1970) + (A + (if p4 then 1 else 0)) - (B + (if p100 then 1 else 0))
        + (C + (if p400 then 1 else 0))"
    by (simp only: DayFromYear_def s4 s100 s400)
  have this_year: "DayFromYear y = 365 * (y - 1970) + A - B + C"
    by (simp only: DayFromYear_def A_def B_def C_def)
  show ?thesis
    unfolding next_year this_year leap using a b by (cases p4; cases p100; cases p400) simp_all
qed

lemma DayFromYear_later:
  assumes "y < y'"
  shows "DayFromYear y + (if InLeapYear y then 366 else 365) \<le> DayFromYear y'"
proof -
  have "y + 1 \<le> y'"
    using assms by simp
  then have "DayFromYear (y + 1) \<le> DayFromYear y'"
  proof (induction y' rule: int_ge_induct)
    case base
    show ?case by simp
  next
    case (step i)
    then show ?case
      using DayFromYear_next [of i] by (simp split: if_splits)
  qed
  then show ?thesis
    by (simp add: DayFromYear_next)
qed

lemma DayFromYear_0: "DayFromYear 0 = - 719528"
  by (simp add: DayFromYear_def)

lemma DayFromYear_10000: "DayFromYear 10000 = 2932897"
  by (simp add: DayFromYear_def)

lemma DayFromYear_bounds:
  assumes "0 \<le> y" "y \<le> 9999"
  shows "- 719528 \<le> DayFromYear y \<and> DayFromYear y < 2932897"
proof -
  have lo: "- 719528 \<le> DayFromYear y"
  proof (cases "y = 0")
    case True
    then show ?thesis by (simp add: DayFromYear_0)
  next
    case False
    then have "0 < y" using assms by simp
    from DayFromYear_later [OF this] show ?thesis
      by (simp add: DayFromYear_0 split: if_splits)
  qed
  have "y < 10000"
    using assms by simp
  from DayFromYear_later [OF this] have "DayFromYear y < 2932897"
    by (simp add: DayFromYear_10000 split: if_splits)
  with lo show ?thesis
    by simp
qed

lemma month_cases:
  assumes "(m::nat) \<le> 11"
  shows "m = 0 \<or> m = 1 \<or> m = 2 \<or> m = 3 \<or> m = 4 \<or> m = 5 \<or> m = 6 \<or> m = 7 \<or> m = 8 \<or> m = 9 \<or>
    m = 10 \<or> m = 11"
  using assms by arith

lemma monthStart_nonneg: "m \<le> 11 \<Longrightarrow> 0 \<le> monthStart leap m"
  using month_cases [of m] by (auto simp: monthStart_def)

lemma monthStart_Suc:
  assumes "m < 11"
  shows "monthStart (InLeapYear y) m + int (daysInMonth y (Suc m)) = monthStart (InLeapYear y) (Suc m)"
proof -
  have "m \<le> 11" using assms by simp
  from month_cases [OF this] assms show ?thesis
    by (elim disjE) (simp_all add: monthStart_def daysInMonth_def)
qed

lemma monthStart_last:
  "monthStart (InLeapYear y) 11 + int (daysInMonth y 12) = (if InLeapYear y then 366 else 365)"
  by (simp add: monthStart_def daysInMonth_def)

lemma monthStart_step: "m < 11 \<Longrightarrow> monthStart (InLeapYear y) m \<le> monthStart (InLeapYear y) (Suc m)"
  using monthStart_Suc [of m y] by linarith

lemma monthStart_mono:
  assumes "m \<le> m'" "m' \<le> 11"
  shows "monthStart (InLeapYear y) m \<le> monthStart (InLeapYear y) m'"
  using assms
proof (induction m' rule: dec_induct)
  case base
  show ?case by simp
next
  case (step n)
  then have "monthStart (InLeapYear y) n \<le> monthStart (InLeapYear y) (Suc n)"
    by (intro monthStart_step) simp
  with step show ?case
    by simp
qed

lemma month_end_le_year:
  assumes "1 \<le> m" "m \<le> 12"
  shows "monthStart (InLeapYear y) (m - 1) + int (daysInMonth y m) \<le> (if InLeapYear y then 366 else 365)"
proof (cases "m = 12")
  case True
  then show ?thesis
    using monthStart_last [of y] by simp
next
  case False
  with assms have m: "m - 1 < 11" "Suc (m - 1) = m"
    by simp_all
  have "monthStart (InLeapYear y) (m - 1) + int (daysInMonth y m) = monthStart (InLeapYear y) m"
    using monthStart_Suc [OF m(1), of y] m(2) by simp
  also have "\<dots> \<le> monthStart (InLeapYear y) 11"
    using assms False by (intro monthStart_mono) simp_all
  also have "\<dots> \<le> (if InLeapYear y then 366 else 365)"
    using monthStart_last [of y] by linarith
  finally show ?thesis .
qed

lemma MakeDay_less:
  assumes v: "1 \<le> m" "m \<le> 12" "1 \<le> d" "d \<le> daysInMonth y m"
    and v': "1 \<le> m'" "m' \<le> 12" "1 \<le> d'"
    and less: "y < y' \<or> y = y' \<and> (m < m' \<or> m = m' \<and> d < d')"
  shows "MakeDay y (m - 1) (int d) < MakeDay y' (m' - 1) (int d')"
proof -
  have lo': "DayFromYear y' \<le> MakeDay y' (m' - 1) (int d')"
  proof -
    have "m' - 1 \<le> 11"
      using v'(2) by simp
    then have "0 \<le> monthStart (InLeapYear y') (m' - 1)"
      by (rule monthStart_nonneg)
    then show ?thesis
      using v'(3) by (simp add: MakeDay_def)
  qed
  consider "y < y'" | "y = y'" "m < m'" | "y = y'" "m = m'" "d < d'"
    using less by blast
  then show ?thesis
  proof cases
    case 1
    have "MakeDay y (m - 1) (int d) < DayFromYear y + (if InLeapYear y then 366 else 365)"
      using month_end_le_year [OF v(1,2), of y] v(3,4) by (simp add: MakeDay_def)
    also have "\<dots> \<le> DayFromYear y'"
      using 1 by (rule DayFromYear_later)
    finally show ?thesis
      using lo' by simp
  next
    case 2
    have m: "m - 1 < 11" "Suc (m - 1) = m"
      using v(1) 2(2) v'(2) by simp_all
    have "monthStart (InLeapYear y) (m - 1) + int d \<le> monthStart (InLeapYear y) m"
      using monthStart_Suc [OF m(1), of y] m(2) v(4) by simp
    also have "\<dots> \<le> monthStart (InLeapYear y) (m' - 1)"
      using 2(2) v'(2) by (intro monthStart_mono) simp_all
    finally show ?thesis
      using 2(1) v'(3) by (simp add: MakeDay_def)
  next
    case 3
    then show ?thesis
      by (simp add: MakeDay_def)
  qed
qed

subsection \<open>Digits and the order of strings\<close>

lemma foldl_digits:
  "foldl (\<lambda>n c. 10 * n + (unat c - 48)) n cs =
     n * 10 ^ length cs + foldl (\<lambda>n c. 10 * n + (unat c - 48)) 0 (cs :: jsstring)"
proof (induction cs arbitrary: n)
  case Nil
  show ?case by simp
next
  case (Cons c cs)
  show ?case
    using Cons [of "10 * n + (unat c - 48)"] Cons [of "unat c - 48"]
    by (simp add: algebra_simps)
qed

lemma digitsValue_Nil [simp]: "digitsValue [] = 0"
  by (simp add: digitsValue_def)

lemma digitsValue_Cons: "digitsValue (c # cs) = (unat c - 48) * 10 ^ length cs + digitsValue cs"
  using foldl_digits [of "unat c - 48" cs] by (simp add: digitsValue_def)

lemma digit_value: "isDigit c \<Longrightarrow> unat c - 48 \<le> 9 \<and> 48 \<le> unat c"
proof -
  assume "isDigit c"
  then have "48 \<le> unat c \<and> unat c \<le> 57"
    by (simp add: isDigit_def word_le_nat_alt)
  then show ?thesis
    by arith
qed

lemma digitsValue_bound: "list_all isDigit cs \<Longrightarrow> digitsValue cs < 10 ^ length cs"
proof (induction cs)
  case Nil
  show ?case by simp
next
  case (Cons c cs)
  then have "unat c - 48 \<le> 9" and v: "digitsValue cs < 10 ^ length cs"
    using digit_value [of c] by simp_all
  then have le: "(unat c - 48) * 10 ^ length cs \<le> 9 * 10 ^ length cs"
    by (intro mult_le_mono1)
  from le v have "(unat c - 48) * 10 ^ length cs + digitsValue cs < 9 * 10 ^ length cs + 10 ^ length cs"
    by (rule add_le_less_mono)
  then show ?case
    by (simp add: digitsValue_Cons)
qed

lemma block_less:
  fixes d d' v v' P :: nat
  assumes "v < P" "v' < P"
  shows "d * P + v < d' * P + v' \<longleftrightarrow> d < d' \<or> d = d' \<and> v < v'"
proof -
  have up: "a * P + x < b * P + z" if "a < b" "x < P" for a b x z :: nat
  proof -
    have "Suc a * P \<le> b * P"
      using that(1) by (intro mult_le_mono1) simp
    then show ?thesis
      using that(2) by simp
  qed
  consider "d < d'" | "d = d'" | "d' < d"
    by linarith
  then show ?thesis
  proof cases
    case 1
    with up [OF 1 assms(1), of v'] show ?thesis by simp
  next
    case 2
    then show ?thesis by simp
  next
    case 3
    with up [OF 3 assms(2), of v] show ?thesis by simp
  qed
qed

lemma digit_less: "isDigit c \<Longrightarrow> isDigit c' \<Longrightarrow> c < c' \<longleftrightarrow> unat c - 48 < unat c' - 48"
  using digit_value [of c] digit_value [of c'] by (auto simp: word_less_nat_alt)

lemma digit_eq: "isDigit c \<Longrightarrow> isDigit c' \<Longrightarrow> c = c' \<longleftrightarrow> unat c - 48 = unat c' - 48"
  using digit_value [of c] digit_value [of c'] by (auto simp: word_unat_eq_iff)

lemma digits_order:
  assumes "length xs = length ys" "list_all isDigit xs" "list_all isDigit ys"
  shows "(xs < ys \<longleftrightarrow> digitsValue xs < digitsValue ys) \<and> (xs = ys \<longleftrightarrow> digitsValue xs = digitsValue ys)"
  using assms
proof (induction xs ys rule: list_induct2)
  case Nil
  show ?case by simp
next
  case (Cons c xs c' ys)
  then have IH: "xs < ys \<longleftrightarrow> digitsValue xs < digitsValue ys" "xs = ys \<longleftrightarrow> digitsValue xs = digitsValue ys"
    and c: "isDigit c" "isDigit c'"
    and b: "digitsValue xs < 10 ^ length ys" "digitsValue ys < 10 ^ length ys"
    using digitsValue_bound [of xs] digitsValue_bound [of ys] by simp_all
  have less: "c # xs < c' # ys \<longleftrightarrow> digitsValue (c # xs) < digitsValue (c' # ys)"
    using block_less [OF b, of "unat c - 48" "unat c' - 48"] digit_less [OF c] digit_eq [OF c] IH(1)
      Cons.hyps
    by (simp add: digitsValue_Cons)
  have "digitsValue (c # xs) = digitsValue (c' # ys) \<longleftrightarrow>
      \<not> digitsValue (c # xs) < digitsValue (c' # ys) \<and> \<not> digitsValue (c' # ys) < digitsValue (c # xs)"
    by linarith
  also have "\<dots> \<longleftrightarrow> unat c - 48 = unat c' - 48 \<and> digitsValue xs = digitsValue ys"
    using block_less [OF b, of "unat c - 48" "unat c' - 48"]
      block_less [OF b(2,1), of "unat c' - 48" "unat c - 48"] Cons.hyps
    by (simp add: digitsValue_Cons) linarith
  finally have "c # xs = c' # ys \<longleftrightarrow> digitsValue (c # xs) = digitsValue (c' # ys)"
    using digit_eq [OF c] IH(2) by simp
  with less show ?case
    by simp
qed

lemma lex_append:
  fixes xs ys us vs :: jsstring
  assumes "length xs = length ys"
  shows "xs @ us < ys @ vs \<longleftrightarrow> xs < ys \<or> xs = ys \<and> us < vs"
  using assms by (induction xs ys rule: list_induct2) auto

lemma daysInMonth_le: "daysInMonth y m \<le> 31"
  by (simp add: daysInMonth_def)

lemma not_digit_dash: "\<not> isDigit dash"
  by (simp add: isDigit_def dash_def)

lemma calendar_fields:
  assumes "isCalendarDate s"
  obtains Y M D where "s = Y @ dash # M @ dash # D"
    and "length Y = 4" "length M = 2" "length D = 2"
    and "list_all isDigit Y" "list_all isDigit M" "list_all isDigit D"
    and "dateOnly s = Some (int (digitsValue Y), digitsValue M, digitsValue D)"
    and "1 \<le> digitsValue M" "digitsValue M \<le> 12" "1 \<le> digitsValue D"
    and "digitsValue D \<le> daysInMonth (int (digitsValue Y)) (digitsValue M)"
proof -
  define Y M D where "Y = take 4 s" and "M = take 2 (drop 5 s)" and "D = drop 8 s"
  from assms have len: "length s = 10"
    by (simp add: isCalendarDate_def)
  from assms obtain y m d where f: "dateOnly s = Some (y, m, d)"
    and r: "1 \<le> m" "m \<le> 12" "1 \<le> d" "d \<le> daysInMonth y m"
    by (auto simp: isCalendarDate_def split: option.splits)
  from f len have c: "list_all isDigit Y" "s ! 4 = dash" "list_all isDigit M" "s ! 7 = dash"
    "list_all isDigit D"
    and v: "y = int (digitsValue Y)" "m = digitsValue M" "d = digitsValue D"
    unfolding Y_def M_def D_def by (auto simp: dateOnly_def split: if_splits)
  have "s = take 4 s @ s ! 4 # drop 5 s"
    using len id_take_nth_drop [of 4 s] by simp
  moreover have "drop 5 s = take 2 (drop 5 s) @ drop 5 s ! 2 # drop 3 (drop 5 s)"
    using len id_take_nth_drop [of 2 "drop 5 s"] by simp
  moreover have "drop 5 s ! 2 = s ! 7" "drop 3 (drop 5 s) = drop 8 s"
    using len by simp_all
  ultimately have s: "s = Y @ dash # M @ dash # D"
    using c(2,4) unfolding Y_def M_def D_def by simp
  have l: "length Y = 4" "length M = 2" "length D = 2"
    using len by (simp_all add: Y_def M_def D_def)
  show thesis
    using that [OF s l c(1,3,5)] f r unfolding v by blast
qed

lemma Date_parse_calendar:
  assumes "isCalendarDate s" and "dateOnly s = Some (y, m, d)"
  shows "Date_parse otherFormats s = Some (MakeDay y (m - 1) (int d) * msPerDay)"
proof -
  from assms(1) obtain Y M D where s: "s = Y @ dash # M @ dash # D"
    and l: "length Y = 4" and dY: "list_all isDigit Y"
    and f: "dateOnly s = Some (int (digitsValue Y), digitsValue M, digitsValue D)"
    and r: "1 \<le> digitsValue M" "digitsValue M \<le> 12" "1 \<le> digitsValue D"
      "digitsValue D \<le> daysInMonth (int (digitsValue Y)) (digitsValue M)"
    by (rule calendar_fields)
  from f assms(2) have v: "y = int (digitsValue Y)" "m = digitsValue M" "d = digitsValue D"
    by simp_all
  have r': "1 \<le> m" "m \<le> 12" "1 \<le> d" "d \<le> daysInMonth y m"
    using r unfolding v by simp_all
  have d31: "d \<le> 31"
    using r'(4) daysInMonth_le [of y m] by simp
  have "s ! 0 = hd Y"
    using l by (cases Y) (simp_all add: s)
  moreover have "isDigit (hd Y)"
    using l dY by (cases Y) simp_all
  ultimately have nd: "s ! 0 \<noteq> dash"
    using not_digit_dash by auto
  have "digitsValue Y < 10 ^ 4"
    using digitsValue_bound [OF dY] l by simp
  then have y: "0 \<le> y" "y \<le> 9999"
    unfolding v by simp_all
  have b: "- 719528 \<le> DayFromYear y \<and> DayFromYear y < 2932897"
    using y by (rule DayFromYear_bounds)
  have m0: "0 \<le> monthStart (InLeapYear y) (m - 1)"
    using r'(2) by (intro monthStart_nonneg) simp
  have m1: "monthStart (InLeapYear y) (m - 1) + int (daysInMonth y m) \<le> 366"
    using month_end_le_year [OF r'(1,2), of y] by (simp split: if_splits)
  have "- 719528 \<le> MakeDay y (m - 1) (int d) \<and> MakeDay y (m - 1) (int d) \<le> 2933263"
    using b m0 m1 r'(3,4) by (simp add: MakeDay_def)
  then have "\<bar>MakeDay y (m - 1) (int d) * msPerDay\<bar> \<le> 8640000000000000"
    by (simp add: msPerDay_def abs_le_iff)
  then have "TimeClip (MakeDay y (m - 1) (int d) * msPerDay) = Some (MakeDay y (m - 1) (int d) * msPerDay)"
    by (simp add: TimeClip_def)
  then show ?thesis
    using assms(2) r' nd by (simp add: Date_parse_def)
qed

lemma calendar_less:
  assumes a: "isCalendarDate a" and b: "isCalendarDate b" and less: "a < b"
  shows "\<exists>ta tb. Date_parse otherFormats a = Some ta \<and> Date_parse otherFormats b = Some tb \<and> ta < tb"
proof -
  from a obtain Y M D where sa: "a = Y @ dash # M @ dash # D"
    and la: "length Y = 4" "length M = 2" "length D = 2"
    and da: "list_all isDigit Y" "list_all isDigit M" "list_all isDigit D"
    and fa: "dateOnly a = Some (int (digitsValue Y), digitsValue M, digitsValue D)"
    and ra: "1 \<le> digitsValue M" "digitsValue M \<le> 12" "1 \<le> digitsValue D"
      "digitsValue D \<le> daysInMonth (int (digitsValue Y)) (digitsValue M)"
    by (rule calendar_fields)
  from b obtain Y' M' D' where sb: "b = Y' @ dash # M' @ dash # D'"
    and lb: "length Y' = 4" "length M' = 2" "length D' = 2"
    and db: "list_all isDigit Y'" "list_all isDigit M'" "list_all isDigit D'"
    and fb: "dateOnly b = Some (int (digitsValue Y'), digitsValue M', digitsValue D')"
    and rb: "1 \<le> digitsValue M'" "digitsValue M' \<le> 12" "1 \<le> digitsValue D'"
    by (rule calendar_fields)
  have "a < b \<longleftrightarrow> Y < Y' \<or> Y = Y' \<and> dash # M @ dash # D < dash # M' @ dash # D'"
    unfolding sa sb using la(1) lb(1) by (intro lex_append) simp
  also have "dash # M @ dash # D < dash # M' @ dash # D' \<longleftrightarrow> M @ dash # D < M' @ dash # D'"
    by simp
  also have "M @ dash # D < M' @ dash # D' \<longleftrightarrow> M < M' \<or> M = M' \<and> dash # D < dash # D'"
    using la(2) lb(2) by (intro lex_append) simp
  also have "dash # D < dash # D' \<longleftrightarrow> D < D'"
    by simp
  finally have lex: "Y < Y' \<or> Y = Y' \<and> (M < M' \<or> M = M' \<and> D < D')"
    using less by simp
  have oY: "(Y < Y' \<longleftrightarrow> digitsValue Y < digitsValue Y') \<and> (Y = Y' \<longleftrightarrow> digitsValue Y = digitsValue Y')"
    using la(1) lb(1) da(1) db(1) by (intro digits_order) simp_all
  have oM: "(M < M' \<longleftrightarrow> digitsValue M < digitsValue M') \<and> (M = M' \<longleftrightarrow> digitsValue M = digitsValue M')"
    using la(2) lb(2) da(2) db(2) by (intro digits_order) simp_all
  have oD: "(D < D' \<longleftrightarrow> digitsValue D < digitsValue D') \<and> (D = D' \<longleftrightarrow> digitsValue D = digitsValue D')"
    using la(3) lb(3) da(3) db(3) by (intro digits_order) simp_all
  have num: "int (digitsValue Y) < int (digitsValue Y') \<or>
      int (digitsValue Y) = int (digitsValue Y') \<and>
      (digitsValue M < digitsValue M' \<or> digitsValue M = digitsValue M' \<and> digitsValue D < digitsValue D')"
    using lex oY oM oD by auto
  have "MakeDay (int (digitsValue Y)) (digitsValue M - 1) (int (digitsValue D))
      < MakeDay (int (digitsValue Y')) (digitsValue M' - 1) (int (digitsValue D'))"
    using ra rb num by (rule MakeDay_less)
  then have "MakeDay (int (digitsValue Y)) (digitsValue M - 1) (int (digitsValue D)) * msPerDay
      < MakeDay (int (digitsValue Y')) (digitsValue M' - 1) (int (digitsValue D')) * msPerDay"
    by (simp add: msPerDay_def)
  then show ?thesis
    using Date_parse_calendar [OF a fa, of otherFormats] Date_parse_calendar [OF b fb, of otherFormats]
    by simp
qed

lemma calendar_parses:
  assumes "isCalendarDate a"
  shows "\<exists>t. Date_parse otherFormats a = Some t"
proof -
  from assms obtain y m d where "dateOnly a = Some (y, m, d)"
    by (auto simp: isCalendarDate_def split: option.splits)
  with assms show ?thesis
    using Date_parse_calendar by blast
qed

subsection \<open>The sort as a stable sort by time value\<close>

lemma insertBy_insort_key:
  fixes k :: "'a \<Rightarrow> int"
  assumes "\<forall>y \<in> set ys. comparefn x y = Some (k x - k y)"
  shows "insertBy comparefn x ys = insort_key k x ys"
  using assms by (induction ys) (auto simp: SortCompare_def)

lemma insertion_sort_key:
  fixes k :: "'a \<Rightarrow> int"
  assumes "\<forall>x \<in> set xs. \<forall>y \<in> set xs. comparefn x y = Some (k x - k y)"
  shows "foldr (insertBy comparefn) xs [] = sort_key k xs"
  using assms
proof (induction xs)
  case Nil
  show ?case by simp
next
  case (Cons x xs)
  then have IH: "foldr (insertBy comparefn) xs [] = sort_key k xs"
    by simp
  have "foldr (insertBy comparefn) (x # xs) [] = insertBy comparefn x (sort_key k xs)"
    using IH by simp
  also have "\<dots> = insort_key k x (sort_key k xs)"
    using Cons.prems by (intro insertBy_insort_key) simp
  finally show ?case
    by simp
qed

text \<open>A comparator that is the difference of a key is consistent.\<close>

lemma consistentOn_key:
  fixes k :: "'a \<Rightarrow> int"
  assumes "\<forall>x \<in> set xs. \<forall>y \<in> set xs. comparefn x y = Some (k x - k y)"
  shows "consistentOn comparefn xs"
proof -
  have "SortCompare comparefn x y = k x - k y" if "x \<in> set xs" "y \<in> set xs" for x y
    using assms that by (simp add: SortCompare_def)
  then show ?thesis
    unfolding consistentOn_def list_all_iff by auto
qed

lemma arraySort_sort_key:
  fixes k :: "'a \<Rightarrow> int"
  assumes "\<forall>x \<in> set xs. \<forall>y \<in> set xs. comparefn x y = Some (k x - k y)"
  shows "arraySort engineOrder comparefn xs = sort_key k xs"
  using consistentOn_key [OF assms] insertion_sort_key [OF assms] by (simp add: arraySort_def)

text \<open>
  Two rows dated \<open>32 Jan 2024\<close> and \<open>1 Jan 2023\<close> come out in their input order on
  every engine for which \<open>2024-01-32\<close> is an Invalid Date, whatever else it reads and
  however it orders an array under an inconsistent comparator: with two rows and one Invalid
  Date every comparison is zero, which is consistent.
\<close>

lemma invalid_day_keeps_input_order:
  assumes "otherFormats (js ''2024-01-32'') = None"
  shows "map date (parseCSV otherFormats engineOrder (js ''Row,Code,Order,Common,Sci,Sub,Loc,SP,Date\<newline>1,amerob,100,Robin,Turdus,,Park,US-NY,32 Jan 2024\<newline>2,houwre,200,Wren,Trog,,Yard,US-MA,1 Jan 2023'')) =
     [js ''2024-01-32'', js ''2023-01-01'']"
proof -
  have c: "collectRows (js ''Row,Code,Order,Common,Sci,Sub,Loc,SP,Date\<newline>1,amerob,100,Robin,Turdus,,Park,US-NY,32 Jan 2024\<newline>2,houwre,200,Wren,Trog,,Yard,US-MA,1 Jan 2023'') =
    [\<lparr>date = js ''2024-01-32'', sciName = js ''Turdus'', common = js ''Robin'',
      location = js ''Park'', region = js ''US-NY''\<rparr>,
     \<lparr>date = js ''2023-01-01'', sciName = js ''Trog'', common = js ''Wren'',
      location = js ''Yard'', region = js ''US-MA''\<rparr>]"
    by code_simp
  have d: "dateOnly (js ''2024-01-32'') = Some (2024, 1, 32)"
    by code_simp
  have n: "Date_parse otherFormats (js ''2024-01-32'') = None"
    using assms by (simp add: Date_parse_def d daysInMonth_def)
  have "isCalendarDate (js ''2023-01-01'')"
    by code_simp
  then obtain t where t: "Date_parse otherFormats (js ''2023-01-01'') = Some t"
    using calendar_parses by blast
  show ?thesis
    by (simp add: parseCSV_def c arraySort_def consistentOn_def SortCompare_def compareDates_def n t)
qed

text \<open>
  With more rows an Invalid Date makes the comparator inconsistent, and the order is the
  engine's: on rows dated 3 Jan, 2 Jan, 32 Jan and 2 Jan 2020 the comparator is not
  consistent, an engine that ranks the four indices 2, 0, 3, 1 returns the rows in the order
  B, D, A, C, as Node does, and one that keeps the input order returns A, B, C, D.
\<close>

lemma inconsistent_comparator_order:
  "\<not> consistentOn (compareDates noOtherFormats)
      (collectRows (js ''h\<newline>1,c,t,A,a,s,P,US,3 Jan 2020\<newline>2,c,t,B,b,s,P,US,2 Jan 2020\<newline>3,c,t,C,c,s,P,US,32 Jan 2020\<newline>4,c,t,D,d,s,P,US,2 Jan 2020'')) \<and>
   map common (parseCSV noOtherFormats (\<lambda>comparefn xs i. [2, 0, 3, 1] ! i)
      (js ''h\<newline>1,c,t,A,a,s,P,US,3 Jan 2020\<newline>2,c,t,B,b,s,P,US,2 Jan 2020\<newline>3,c,t,C,c,s,P,US,32 Jan 2020\<newline>4,c,t,D,d,s,P,US,2 Jan 2020'')) =
     [js ''B'', js ''D'', js ''A'', js ''C''] \<and>
   map common (parseCSV noOtherFormats inputOrder
      (js ''h\<newline>1,c,t,A,a,s,P,US,3 Jan 2020\<newline>2,c,t,B,b,s,P,US,2 Jan 2020\<newline>3,c,t,C,c,s,P,US,32 Jan 2020\<newline>4,c,t,D,d,s,P,US,2 Jan 2020'')) =
     [js ''A'', js ''B'', js ''C'', js ''D'']"
proof -
  have c: "collectRows (js ''h\<newline>1,c,t,A,a,s,P,US,3 Jan 2020\<newline>2,c,t,B,b,s,P,US,2 Jan 2020\<newline>3,c,t,C,c,s,P,US,32 Jan 2020\<newline>4,c,t,D,d,s,P,US,2 Jan 2020'') =
    [\<lparr>date = js ''2020-01-03'', sciName = js ''a'', common = js ''A'', location = js ''P'',
      region = js ''US''\<rparr>,
     \<lparr>date = js ''2020-01-02'', sciName = js ''b'', common = js ''B'', location = js ''P'',
      region = js ''US''\<rparr>,
     \<lparr>date = js ''2020-01-32'', sciName = js ''c'', common = js ''C'', location = js ''P'',
      region = js ''US''\<rparr>,
     \<lparr>date = js ''2020-01-02'', sciName = js ''d'', common = js ''D'', location = js ''P'',
      region = js ''US''\<rparr>]"
    by code_simp
  have t: "Date_parse noOtherFormats (js ''2020-01-03'') = Some 1578009600000"
    "Date_parse noOtherFormats (js ''2020-01-02'') = Some 1577923200000"
    "Date_parse noOtherFormats (js ''2020-01-32'') = None"
    by code_simp+
  have u: "[0..<4] = [0, 1, 2, 3]"
    by code_simp
  have n: "\<not> consistentOn (compareDates noOtherFormats)
      [\<lparr>date = js ''2020-01-03'', sciName = js ''a'', common = js ''A'', location = js ''P'',
        region = js ''US''\<rparr>,
       \<lparr>date = js ''2020-01-02'', sciName = js ''b'', common = js ''B'', location = js ''P'',
        region = js ''US''\<rparr>,
       \<lparr>date = js ''2020-01-32'', sciName = js ''c'', common = js ''C'', location = js ''P'',
        region = js ''US''\<rparr>,
       \<lparr>date = js ''2020-01-02'', sciName = js ''d'', common = js ''D'', location = js ''P'',
        region = js ''US''\<rparr>]"
    by (simp add: consistentOn_def SortCompare_def compareDates_def t)
  show ?thesis
    using n by (simp add: parseCSV_def c arraySort_def u inputOrder_def)
qed

text \<open>
  Claim C1 says that for every input the output is sorted ascending by the \<open>date\<close> string
  and that equal dates keep their input order. The code does not compare the strings: it
  sorts by the difference of \<open>new Date(a.date)\<close> and \<open>new Date(b.date)\<close>, and
  \<open>parseEbirdDate\<close> does not check the day or the year. A row dated \<open>32 Jan 2024\<close> is
  emitted with the date \<open>2024-01-32\<close>, which is an Invalid Date in Node; every comparison
  with it is NaN, read as zero, the sort leaves the two rows as they came, and
  \<open>2024-01-32\<close> stays before \<open>2023-01-01\<close>.
\<close>

theorem parseCSV_sorted_counterexample:
  "\<not> sorted_wrt (\<lambda>a b. date a \<le> date b)
     (parseCSV noOtherFormats inputOrder (js ''Row,Code,Order,Common,Sci,Sub,Loc,SP,Date\<newline>1,amerob,100,Robin,Turdus,,Park,US-NY,32 Jan 2024\<newline>2,houwre,200,Wren,Trog,,Yard,US-MA,1 Jan 2023''))"
proof -
  have "noOtherFormats (js ''2024-01-32'') = None"
    by (simp add: noOtherFormats_def)
  then have "map date (parseCSV noOtherFormats inputOrder (js ''Row,Code,Order,Common,Sci,Sub,Loc,SP,Date\<newline>1,amerob,100,Robin,Turdus,,Park,US-NY,32 Jan 2024\<newline>2,houwre,200,Wren,Trog,,Yard,US-MA,1 Jan 2023'')) =
      [js ''2024-01-32'', js ''2023-01-01'']"
    by (rule invalid_day_keeps_input_order)
  moreover have "\<not> js ''2024-01-32'' \<le> js ''2023-01-01''"
    by (simp add: js_def)
  ultimately have "\<not> sorted_wrt (\<le>) (map date (parseCSV noOtherFormats inputOrder (js ''Row,Code,Order,Common,Sci,Sub,Loc,SP,Date\<newline>1,amerob,100,Robin,Turdus,,Park,US-NY,32 Jan 2024\<newline>2,houwre,200,Wren,Trog,,Yard,US-MA,1 Jan 2023'')))"
    by simp
  then show ?thesis
    by (simp add: sorted_wrt_map)
qed

text \<open>
  Claim C1, amended. When every date emitted is a calendar date written \<open>YYYY-MM-DD\<close>
  (four digits of year, a month from 01 to 12, a day that exists in that month), the output
  is sorted ascending by the \<open>date\<close> string in the lexicographic order of code units, the
  observations of any one date come in the order in which their rows stood in the input,
  and the output is a rearrangement of the observations collected.
\<close>

theorem parseCSV_sorted_calendar_dates:
  assumes "\<forall>ob \<in> set (collectRows csvContent). isCalendarDate (date ob)"
  shows "sorted_wrt (\<lambda>a b. date a \<le> date b) (parseCSV otherFormats engineOrder csvContent) \<and>
    filter (\<lambda>ob. date ob = d) (parseCSV otherFormats engineOrder csvContent) =
      filter (\<lambda>ob. date ob = d) (collectRows csvContent) \<and>
    mset (parseCSV otherFormats engineOrder csvContent) = mset (collectRows csvContent)"
proof -
  define xs where "xs = collectRows csvContent"
  define k where "k ob = the (Date_parse otherFormats (date ob))" for ob :: observation
  have cal: "isCalendarDate (date ob)" if "ob \<in> set xs" for ob
    using that assms by (simp add: xs_def)
  have parses: "Date_parse otherFormats (date ob) = Some (k ob)" if "ob \<in> set xs" for ob
    using calendar_parses [OF cal [OF that], of otherFormats] by (auto simp: k_def)
  have less: "k a < k b" if "a \<in> set xs" "b \<in> set xs" "date a < date b" for a b
    using calendar_less [OF cal [OF that(1)] cal [OF that(2)] that(3), of otherFormats]
      parses [OF that(1)] parses [OF that(2)] by simp
  have "\<forall>a \<in> set xs. \<forall>b \<in> set xs. compareDates otherFormats a b = Some (k a - k b)"
    using parses by (simp add: compareDates_def)
  then have sort: "parseCSV otherFormats engineOrder csvContent = sort_key k xs"
    unfolding parseCSV_def xs_def [symmetric] by (rule arraySort_sort_key)
  have "sorted_wrt (\<lambda>a b. k a \<le> k b) (sort_key k xs)"
    using sorted_sort_key [of k xs] by (simp add: sorted_map)
  then have 1: "sorted_wrt (\<lambda>a b. date a \<le> date b) (sort_key k xs)"
  proof (rule sorted_wrt_mono_rel [rotated])
    fix a b
    assume "a \<in> set (sort_key k xs)" "b \<in> set (sort_key k xs)" "k a \<le> k b"
    then have "\<not> date b < date a"
      using less [of b a] by auto
    then show "date a \<le> date b"
      by simp
  qed
  have 2: "filter (\<lambda>ob. date ob = d) (sort_key k xs) = filter (\<lambda>ob. date ob = d) xs"
  proof (cases "\<exists>ob \<in> set xs. date ob = d")
    case True
    then obtain ob0 where ob0: "ob0 \<in> set xs" "date ob0 = d"
      by blast
    have eq: "date ob = d \<longleftrightarrow> k ob = k ob0" if "ob \<in> set xs" for ob
    proof
      assume "date ob = d"
      then show "k ob = k ob0"
        using ob0(2) by (simp add: k_def)
    next
      assume e: "k ob = k ob0"
      have "\<not> date ob < date ob0" "\<not> date ob0 < date ob"
        using less [OF that ob0(1)] less [OF ob0(1) that] e by auto
      then show "date ob = d"
        using ob0(2) by simp
    qed
    have "filter (\<lambda>ob. date ob = d) (sort_key k xs) = filter (\<lambda>ob. k ob = k ob0) (sort_key k xs)"
      by (rule filter_cong) (simp_all add: eq)
    also have "\<dots> = filter (\<lambda>ob. k ob = k ob0) xs"
      by (rule sort_key_stable)
    also have "\<dots> = filter (\<lambda>ob. date ob = d) xs"
      by (rule filter_cong) (simp_all add: eq)
    finally show ?thesis .
  next
    case False
    then show ?thesis
      by (simp add: filter_empty_conv)
  qed
  show ?thesis
    using 1 2 unfolding sort by (simp add: xs_def)
qed

text \<open>
  Four rows dated 2 Mar, 1 Jan, 5 Jan and again 1 Jan 2024: the output runs
  \<open>2024-01-01\<close>, \<open>2024-01-01\<close>, \<open>2024-01-05\<close>, \<open>2024-03-02\<close>, with the two
  observations of 1 Jan in their input order.
\<close>

theorem parseCSV_sorted_calendar_dates_witness:
  "isCalendarDate (js ''2024-03-02'') \<and> isCalendarDate (js ''2024-01-01'') \<and>
   isCalendarDate (js ''2024-01-05'') \<and>
   map date (collectRows (js ''h\<newline>1,c,t,Robin,Turdus,s,Park,US-NY,2 Mar 2024\<newline>2,c,t,Wren,Trog,s,Yard,US-MA,1 Jan 2024\<newline>3,c,t,Jay,Cyan,s,Wood,US-VT,5 Jan 2024\<newline>4,c,t,Crow,Corvus,s,Farm,US-NH,1 Jan 2024'')) =
     [js ''2024-03-02'', js ''2024-01-01'', js ''2024-01-05'', js ''2024-01-01''] \<and>
   sorted_wrt (\<lambda>a b. date a \<le> date b)
     (parseCSV noOtherFormats inputOrder (js ''h\<newline>1,c,t,Robin,Turdus,s,Park,US-NY,2 Mar 2024\<newline>2,c,t,Wren,Trog,s,Yard,US-MA,1 Jan 2024\<newline>3,c,t,Jay,Cyan,s,Wood,US-VT,5 Jan 2024\<newline>4,c,t,Crow,Corvus,s,Farm,US-NH,1 Jan 2024'')) \<and>
   map common (filter (\<lambda>ob. date ob = js ''2024-01-01'')
     (parseCSV noOtherFormats inputOrder (js ''h\<newline>1,c,t,Robin,Turdus,s,Park,US-NY,2 Mar 2024\<newline>2,c,t,Wren,Trog,s,Yard,US-MA,1 Jan 2024\<newline>3,c,t,Jay,Cyan,s,Wood,US-VT,5 Jan 2024\<newline>4,c,t,Crow,Corvus,s,Farm,US-NH,1 Jan 2024''))) =
     [js ''Wren'', js ''Crow''] \<and>
   map date (parseCSV noOtherFormats inputOrder (js ''h\<newline>1,c,t,Robin,Turdus,s,Park,US-NY,2 Mar 2024\<newline>2,c,t,Wren,Trog,s,Yard,US-MA,1 Jan 2024\<newline>3,c,t,Jay,Cyan,s,Wood,US-VT,5 Jan 2024\<newline>4,c,t,Crow,Corvus,s,Farm,US-NH,1 Jan 2024'')) =
     [js ''2024-01-01'', js ''2024-01-01'', js ''2024-01-05'', js ''2024-03-02'']"
proof -
  define csv where "csv = js ''h\<newline>1,c,t,Robin,Turdus,s,Park,US-NY,2 Mar 2024\<newline>2,c,t,Wren,Trog,s,Yard,US-MA,1 Jan 2024\<newline>3,c,t,Jay,Cyan,s,Wood,US-VT,5 Jan 2024\<newline>4,c,t,Crow,Corvus,s,Farm,US-NH,1 Jan 2024''"
  have i: "isCalendarDate (js ''2024-03-02'')" "isCalendarDate (js ''2024-01-01'')"
    "isCalendarDate (js ''2024-01-05'')"
    by code_simp+
  have c: "collectRows csv =
    [\<lparr>date = js ''2024-03-02'', sciName = js ''Turdus'', common = js ''Robin'',
      location = js ''Park'', region = js ''US-NY''\<rparr>,
     \<lparr>date = js ''2024-01-01'', sciName = js ''Trog'', common = js ''Wren'',
      location = js ''Yard'', region = js ''US-MA''\<rparr>,
     \<lparr>date = js ''2024-01-05'', sciName = js ''Cyan'', common = js ''Jay'',
      location = js ''Wood'', region = js ''US-VT''\<rparr>,
     \<lparr>date = js ''2024-01-01'', sciName = js ''Corvus'', common = js ''Crow'',
      location = js ''Farm'', region = js ''US-NH''\<rparr>]"
    unfolding csv_def by code_simp
  have h: "\<forall>ob \<in> set (collectRows csv). isCalendarDate (date ob)"
    using i by (simp add: c)
  have ne: "js ''2024-03-02'' \<noteq> js ''2024-01-01''" "js ''2024-01-05'' \<noteq> js ''2024-01-01''"
    by (simp_all add: js_def)
  have f: "map common (filter (\<lambda>ob. date ob = js ''2024-01-01'') (collectRows csv)) = [js ''Wren'', js ''Crow'']"
    using ne by (simp add: c)
  note T = parseCSV_sorted_calendar_dates [OF h, of noOtherFormats inputOrder "js ''2024-01-01''"]
  have 1: "sorted_wrt (\<lambda>a b. date a \<le> date b) (parseCSV noOtherFormats inputOrder csv)"
    using T by blast
  have 2: "map common (filter (\<lambda>ob. date ob = js ''2024-01-01'') (parseCSV noOtherFormats inputOrder csv)) =
      [js ''Wren'', js ''Crow'']"
    using T f by simp
  have t: "Date_parse noOtherFormats (js ''2024-03-02'') = Some 1709337600000"
    "Date_parse noOtherFormats (js ''2024-01-01'') = Some 1704067200000"
    "Date_parse noOtherFormats (js ''2024-01-05'') = Some 1704412800000"
    by code_simp+
  have 3: "map date (parseCSV noOtherFormats inputOrder csv) =
      [js ''2024-01-01'', js ''2024-01-01'', js ''2024-01-05'', js ''2024-03-02'']"
    by (simp add: parseCSV_def c arraySort_def consistentOn_def SortCompare_def compareDates_def t)
  show ?thesis
    using i c 1 2 3 unfolding csv_def by simp
qed

end
